theory Spec2Isabelle
  imports Complex_Main "HOL-Library.AList"
begin

section \<open>Data model of \<^verbatim>\<open>simulation.ts\<close>\<close>

text \<open>
  The agent states \<^verbatim>\<open>'S' | 'I' | 'R'\<close>, the three topologies, and the five interfaces
  of the source, field by field. Agent counts, ids and indexes are natural numbers;
  connectivity, weights and rates are reals (JavaScript doubles without rounding);
  \<^verbatim>\<open>frequency\<close>, \<^verbatim>\<open>iter\<close> and \<^verbatim>\<open>count\<close> are integers.
  An \<^verbatim>\<open>infectedByLayer\<close> of \<^verbatim>\<open>null\<close> is \<open>None\<close>.
\<close>

datatype AgentState = S | I | R

datatype TopologyType = random | smallworld | scalefree

record SimAgent =
  agent_id :: nat
  state :: AgentState
  infectedByLayer :: "nat option"
  infectedCount :: "nat list"

record SimEdge =
  source :: nat
  target :: nat
  weight :: real

record SimLayer =
  layer_id :: nat
  edges :: "SimEdge list"
  connectivity :: real
  frequency :: int

record SimNetwork =
  agents :: "SimAgent list"
  layers :: "SimLayer list"

record LayerConfig =
  cfg_connectivity :: real
  cfg_frequency :: int
  cfg_topology :: TopologyType

text \<open>
  A \<^verbatim>\<open>TypeError\<close> is the only exception the engine can throw: a property read or
  written on \<^verbatim>\<open>undefined\<close>, after an array access out of range.
\<close>

datatype error = TypeError

definition bindE :: "error + 'a \<Rightarrow> ('a \<Rightarrow> error + 'b) \<Rightarrow> error + 'b" where
  "bindE r f = (case r of Inl e \<Rightarrow> Inl e | Inr x \<Rightarrow> f x)"

text \<open>A loop over a list whose body may throw: the first exception ends the loop.\<close>

primrec foldE :: "('a \<Rightarrow> 's \<Rightarrow> error + 's) \<Rightarrow> 'a list \<Rightarrow> 's \<Rightarrow> error + 's" where
  "foldE f [] s = Inr s"
| "foldE f (x # xs) s = bindE (f x s) (foldE f xs)"

section \<open>The random source\<close>

text \<open>
  \<^verbatim>\<open>Math.random()\<close> is the sequence of its draws, \<open>rnd\<close>, read at a position that
  every call advances by one. The position is threaded through every function that
  draws. JavaScript promises draws in \<open>[0, 1)\<close>; \<open>unit_draws\<close> says so.
\<close>

type_synonym rng = "nat \<Rightarrow> real"

definition unit_draws :: "rng \<Rightarrow> bool" where
  "unit_draws rnd = (\<forall>p. 0 \<le> rnd p \<and> rnd p < 1)"

text \<open>\<^verbatim>\<open>0.3 + Math.random() * 0.7\<close>, drawn at position \<open>p\<close>.\<close>

definition drawWeight :: "rng \<Rightarrow> nat \<Rightarrow> real" where
  "drawWeight rnd p = 0.3 + rnd p * 0.7"

text \<open>\<^verbatim>\<open>Math.floor(Math.random() * numAgents)\<close>, drawn at position \<open>p\<close>.\<close>

definition drawIndex :: "rng \<Rightarrow> nat \<Rightarrow> nat \<Rightarrow> int" where
  "drawIndex rnd p numAgents = \<lfloor>rnd p * real numAgents\<rfloor>"

text \<open>\<^verbatim>\<open>Math.round\<close> rounds a half up.\<close>

definition js_round :: "real \<Rightarrow> int" where
  "js_round x = \<lfloor>x + 1 / 2\<rfloor>"

section \<open>Topology generators\<close>

text \<open>The two pushes of a matched pair of directed edges.\<close>

definition pushPair :: "nat \<Rightarrow> nat \<Rightarrow> real \<Rightarrow> SimEdge list \<Rightarrow> SimEdge list" where
  "pushPair i j w es =
     es @ [\<lparr>source = i, target = j, weight = w\<rparr>, \<lparr>source = j, target = i, weight = w\<rparr>]"

subsection \<open>\<^verbatim>\<open>buildRandomLayer\<close>\<close>

text \<open>The body of the inner loop: one draw for the edge, one more for its weight.\<close>

definition randomPair :: "rng \<Rightarrow> real \<Rightarrow> nat \<Rightarrow> nat \<Rightarrow> SimEdge list \<times> nat \<Rightarrow> SimEdge list \<times> nat" where
  "randomPair rnd c i j = (\<lambda>(es, p).
     if rnd p < c then (pushPair i j (drawWeight rnd (p + 1)) es, p + 2)
     else (es, p + 1))"

definition buildRandomLayer :: "rng \<Rightarrow> nat \<Rightarrow> real \<Rightarrow> nat \<Rightarrow> SimEdge list \<times> nat" where
  "buildRandomLayer rnd numAgents c p =
     fold (\<lambda>i. fold (randomPair rnd c i) [i + 1..<numAgents]) [0..<numAgents] ([], p)"

subsection \<open>The adjacency matrix of the other two generators\<close>

text \<open>
  \<^verbatim>\<open>adj[i][j] = v\<close> and the final double loop that both generators end with: an edge
  pair with a fresh weight for every \<open>i < j\<close> with \<^verbatim>\<open>adj[i][j]\<close> set.
\<close>

definition set2 :: "bool list list \<Rightarrow> nat \<Rightarrow> nat \<Rightarrow> bool \<Rightarrow> bool list list" where
  "set2 adj i j v = adj[i := (adj ! i)[j := v]]"

definition emptyAdj :: "nat \<Rightarrow> bool list list" where
  "emptyAdj numAgents = replicate numAgents (replicate numAgents False)"

definition adjPair :: "rng \<Rightarrow> bool list list \<Rightarrow> nat \<Rightarrow> nat \<Rightarrow> SimEdge list \<times> nat \<Rightarrow> SimEdge list \<times> nat" where
  "adjPair rnd adj i j = (\<lambda>(es, p).
     if adj ! i ! j then (pushPair i j (drawWeight rnd p) es, p + 1) else (es, p))"

definition edgesOfAdj :: "rng \<Rightarrow> nat \<Rightarrow> bool list list \<Rightarrow> nat \<Rightarrow> SimEdge list \<times> nat" where
  "edgesOfAdj rnd numAgents adj p =
     fold (\<lambda>i. fold (adjPair rnd adj i) [i + 1..<numAgents]) [0..<numAgents] ([], p)"

subsection \<open>\<^verbatim>\<open>buildSmallWorldLayer\<close>\<close>

text \<open>
  \<open>k\<close> is an integer: \<^verbatim>\<open>numAgents - 1\<close> is \<open>-1\<close> for no agents. The loops
  \<^verbatim>\<open>for (m = 1; m <= k / 2; m++)\<close> run over the \<open>m\<close> with \<open>2 * m \<le> k\<close>, which are
  \<open>1, ..., k div 2\<close>.
\<close>

definition ringK :: "nat \<Rightarrow> real \<Rightarrow> int" where
  "ringK numAgents c =
     min (max 2 (js_round (c * real numAgents * 0.5) * 2)) (int numAgents - 1)"

definition ringOffsets :: "int \<Rightarrow> nat list" where
  "ringOffsets k = [1..<Suc (nat (k div 2))]"

definition latticeStep :: "nat \<Rightarrow> nat \<Rightarrow> nat \<Rightarrow> bool list list \<Rightarrow> bool list list" where
  "latticeStep numAgents i m adj =
     (let j = (i + m) mod numAgents in set2 (set2 adj i j True) j i True)"

definition ringLattice :: "nat \<Rightarrow> int \<Rightarrow> bool list list" where
  "ringLattice numAgents k =
     fold (\<lambda>i. fold (latticeStep numAgents i) (ringOffsets k)) [0..<numAgents]
       (emptyAdj numAgents)"

text \<open>
  \<^verbatim>\<open>adj[i][newJ]\<close> for a drawn \<^verbatim>\<open>newJ\<close>: out of the row's range the read is
  \<^verbatim>\<open>undefined\<close>, which is falsy.
\<close>

definition adjAt :: "bool list list \<Rightarrow> nat \<Rightarrow> int \<Rightarrow> bool" where
  "adjAt adj i newJ = (0 \<le> newJ \<and> nat newJ < length (adj ! i) \<and> adj ! i ! nat newJ)"

text \<open>The retry loop: the state is \<^verbatim>\<open>newJ\<close>, \<^verbatim>\<open>attempts\<close> and the draw position.\<close>

function retryTarget :: "rng \<Rightarrow> nat \<Rightarrow> bool list list \<Rightarrow> nat \<Rightarrow> int \<Rightarrow> nat \<Rightarrow> nat \<Rightarrow> int \<times> nat" where
  "retryTarget rnd numAgents adj i newJ attempts p =
     (if (newJ = int i \<or> adjAt adj i newJ) \<and> attempts < numAgents
      then retryTarget rnd numAgents adj i (drawIndex rnd p numAgents) (attempts + 1) (p + 1)
      else (newJ, p))"
  by pat_completeness auto
termination
  by (relation "measure (\<lambda>(rnd, numAgents, adj, i, newJ, attempts, p). numAgents - attempts)") auto

declare retryTarget.simps [simp del]

text \<open>
  The body of the rewiring loop. Writing \<^verbatim>\<open>adj[newJ][i]\<close> for a \<^verbatim>\<open>newJ\<close> that is
  no row of the matrix throws.
\<close>

definition rewireStep :: "rng \<Rightarrow> nat \<Rightarrow> nat \<Rightarrow> nat \<Rightarrow> bool list list \<times> nat \<Rightarrow> error + bool list list \<times> nat" where
  "rewireStep rnd numAgents i m = (\<lambda>(adj, p).
     let j = (i + m) mod numAgents in
     if rnd p < 0.1 then
       (let adj1 = set2 (set2 adj i j False) j i False;
            (newJ, p') = retryTarget rnd numAgents adj1 i (drawIndex rnd (p + 1) numAgents) 0 (p + 2)
        in if newJ \<noteq> int i \<and> \<not> adjAt adj1 i newJ then
             (if 0 \<le> newJ \<and> nat newJ < numAgents
              then Inr (set2 (set2 adj1 i (nat newJ) True) (nat newJ) i True, p')
              else Inl TypeError)
           else Inr (adj1, p'))
     else Inr (adj, p + 1))"

definition rewire :: "rng \<Rightarrow> nat \<Rightarrow> int \<Rightarrow> bool list list \<times> nat \<Rightarrow> error + bool list list \<times> nat" where
  "rewire rnd numAgents k =
     foldE (\<lambda>i. foldE (rewireStep rnd numAgents i) (ringOffsets k)) [0..<numAgents]"

definition buildSmallWorldLayer :: "rng \<Rightarrow> nat \<Rightarrow> real \<Rightarrow> nat \<Rightarrow> error + SimEdge list \<times> nat" where
  "buildSmallWorldLayer rnd numAgents c p =
     (let k = ringK numAgents c in
      bindE (rewire rnd numAgents k (ringLattice numAgents k, p))
        (\<lambda>(adj, p'). Inr (edgesOfAdj rnd numAgents adj p')))"

subsection \<open>\<^verbatim>\<open>buildScaleFreeLayer\<close>\<close>

definition attachM :: "real \<Rightarrow> nat" where
  "attachM c = nat (max 1 (js_round (c * 3)))"

text \<open>\<^verbatim>\<open>adj[i][j] = true; adj[j][i] = true; degrees[i]++; degrees[j]++\<close>\<close>

definition connect :: "nat \<Rightarrow> nat \<Rightarrow> bool list list \<times> nat list \<Rightarrow> bool list list \<times> nat list" where
  "connect i j = (\<lambda>(adj, degrees).
     let d1 = degrees[i := degrees ! i + 1] in
     (set2 (set2 adj i j True) j i True, d1[j := d1 ! j + 1]))"

definition clique :: "nat \<Rightarrow> bool list list \<times> nat list \<Rightarrow> bool list list \<times> nat list" where
  "clique initNodes = fold (\<lambda>i. fold (connect i) [i + 1..<initNodes]) [0..<initNodes]"

text \<open>
  The inner \<^verbatim>\<open>for (j = 0; j < i; j++)\<close> with its \<^verbatim>\<open>break\<close>: the first \<open>j\<close> whose
  cumulated degree reaches \<^verbatim>\<open>rand\<close> and that is not yet a neighbour, if there is one.
\<close>

fun pickTarget :: "real \<Rightarrow> bool list list \<Rightarrow> nat list \<Rightarrow> nat \<Rightarrow> nat list \<Rightarrow> nat \<Rightarrow> nat option" where
  "pickTarget rand adj degrees i [] cumDeg = None"
| "pickTarget rand adj degrees i (j # js) cumDeg =
     (let cumDeg' = cumDeg + degrees ! j in
      if rand \<le> real cumDeg' \<and> \<not> adj ! i ! j then Some j
      else pickTarget rand adj degrees i js cumDeg')"

text \<open>The \<^verbatim>\<open>while (added < m && attempts < i * 3)\<close> loop of one new node.\<close>

function attachLoop :: "rng \<Rightarrow> nat \<Rightarrow> nat \<Rightarrow> nat \<Rightarrow> nat \<Rightarrow> nat \<Rightarrow> bool list list \<times> nat list \<Rightarrow> nat
    \<Rightarrow> (bool list list \<times> nat list) \<times> nat" where
  "attachLoop rnd m i added attempts totalDeg g p =
     (if added < m \<and> attempts < i * 3 then
        (case pickTarget (rnd p * real totalDeg) (fst g) (snd g) i [0..<i] 0 of
           Some j \<Rightarrow> attachLoop rnd m i (added + 1) (attempts + 1) (totalDeg + 2) (connect i j g) (p + 1)
         | None \<Rightarrow> attachLoop rnd m i added (attempts + 1) totalDeg g (p + 1))
      else (g, p))"
  by pat_completeness auto
termination
  by (relation "measure (\<lambda>(rnd, m, i, added, attempts, totalDeg, g, p). i * 3 - attempts)") auto

declare attachLoop.simps [simp del]

text \<open>\<^verbatim>\<open>degrees.slice(0, i).reduce((a, b) => a + b, 0) || 1\<close>\<close>

definition totalDegree :: "nat list \<Rightarrow> nat \<Rightarrow> nat" where
  "totalDegree degrees i = (let s = sum_list (take i degrees) in if s = 0 then 1 else s)"

definition attachNode :: "rng \<Rightarrow> nat \<Rightarrow> nat \<Rightarrow> (bool list list \<times> nat list) \<times> nat
    \<Rightarrow> (bool list list \<times> nat list) \<times> nat" where
  "attachNode rnd m i = (\<lambda>(g, p). attachLoop rnd m i 0 0 (totalDegree (snd g) i) g p)"

definition buildScaleFreeLayer :: "rng \<Rightarrow> nat \<Rightarrow> real \<Rightarrow> nat \<Rightarrow> SimEdge list \<times> nat" where
  "buildScaleFreeLayer rnd numAgents c p =
     (let m = attachM c;
          initNodes = min (m + 1) numAgents;
          g0 = clique initNodes (emptyAdj numAgents, replicate numAgents 0);
          (g, p') = fold (attachNode rnd m) [initNodes..<numAgents] (g0, p)
      in edgesOfAdj rnd numAgents (fst g) p')"

subsection \<open>\<^verbatim>\<open>buildLayer\<close> and \<^verbatim>\<open>buildNetwork\<close>\<close>

definition buildLayer :: "rng \<Rightarrow> nat \<Rightarrow> nat \<Rightarrow> LayerConfig \<Rightarrow> nat \<Rightarrow> error + SimLayer \<times> nat" where
  "buildLayer rnd lid numAgents config p =
     bindE (case cfg_topology config of
              smallworld \<Rightarrow> buildSmallWorldLayer rnd numAgents (cfg_connectivity config) p
            | scalefree \<Rightarrow> Inr (buildScaleFreeLayer rnd numAgents (cfg_connectivity config) p)
            | random \<Rightarrow> Inr (buildRandomLayer rnd numAgents (cfg_connectivity config) p))
       (\<lambda>(es, p'). Inr (\<lparr>layer_id = lid, edges = es,
                          connectivity = cfg_connectivity config,
                          frequency = cfg_frequency config\<rparr>, p'))"

definition newAgent :: "nat \<Rightarrow> nat \<Rightarrow> SimAgent" where
  "newAgent numLayers i =
     \<lparr>agent_id = i, state = S, infectedByLayer = None, infectedCount = replicate numLayers 0\<rparr>"

text \<open>\<^verbatim>\<open>layerConfigs.map((cfg, idx) => buildLayer(idx, numAgents, cfg))\<close>, in order.\<close>

definition buildLayers :: "rng \<Rightarrow> nat \<Rightarrow> LayerConfig list \<Rightarrow> nat \<Rightarrow> error + SimLayer list \<times> nat" where
  "buildLayers rnd numAgents layerConfigs p =
     foldE (\<lambda>(idx, cfg) (ls, p1).
              bindE (buildLayer rnd idx numAgents cfg p1) (\<lambda>(l, p2). Inr (ls @ [l], p2)))
       (enumerate 0 layerConfigs) ([], p)"

definition buildNetwork :: "rng \<Rightarrow> nat \<Rightarrow> LayerConfig list \<Rightarrow> nat \<Rightarrow> error + SimNetwork \<times> nat" where
  "buildNetwork rnd numAgents layerConfigs p =
     (let as = map (newAgent (length layerConfigs)) [0..<numAgents] in
      bindE (buildLayers rnd numAgents layerConfigs p)
        (\<lambda>(ls, p'). Inr (\<lparr>agents = as, layers = ls\<rparr>, p')))"

section \<open>Seeding\<close>

definition resetAgent :: "nat \<Rightarrow> SimAgent \<Rightarrow> SimAgent" where
  "resetAgent numLayers a =
     a\<lparr>state := S, infectedByLayer := None, infectedCount := replicate numLayers 0\<rparr>"

text \<open>
  A JavaScript \<^verbatim>\<open>Set\<close> keeps its elements in insertion order and ignores the
  insertion of an element it has: a list without repetitions, appended to.
\<close>

definition setAdd :: "'a \<Rightarrow> 'a list \<Rightarrow> 'a list" where
  "setAdd x xs = (if x \<in> set xs then xs else xs @ [x])"

text \<open>
  \<^verbatim>\<open>while (chosen.size < safeCount) chosen.add(Math.floor(Math.random() * n))\<close>.
  Nothing bounds this loop: it runs until enough distinct ids have been drawn, and
  not returning is the value \<open>None\<close>.
\<close>

partial_function (option) chooseSeeds :: "rng \<Rightarrow> nat \<Rightarrow> int \<Rightarrow> int list \<Rightarrow> nat \<Rightarrow> (int list \<times> nat) option" where
  "chooseSeeds rnd n safeCount chosen p =
     (if int (length chosen) < safeCount
      then chooseSeeds rnd n safeCount (setAdd (drawIndex rnd p n) chosen) (p + 1)
      else Some (chosen, p))"

text \<open>\<^verbatim>\<open>network.agents[id].state = 'I'\<close> throws when \<^verbatim>\<open>id\<close> is no index of the array.\<close>

definition markSeed :: "int \<Rightarrow> SimAgent list \<Rightarrow> error + SimAgent list" where
  "markSeed i as =
     (if 0 \<le> i \<and> nat i < length as then Inr (as[nat i := (as ! nat i)\<lparr>state := I\<rparr>])
      else Inl TypeError)"

definition seedInfected :: "rng \<Rightarrow> SimNetwork \<Rightarrow> int \<Rightarrow> nat \<Rightarrow> (error + SimNetwork \<times> nat) option" where
  "seedInfected rnd network count p =
     (let as = map (resetAgent (length (layers network))) (agents network);
          n = length as;
          safeCount = min count (int n)
      in case chooseSeeds rnd n safeCount [] p of
           None \<Rightarrow> None
         | Some (chosen, p') \<Rightarrow>
             Some (bindE (foldE markSeed chosen as) (\<lambda>as'. Inr (network\<lparr>agents := as'\<rparr>, p'))))"

section \<open>The simulation step\<close>

subsection \<open>The neighbour lookup\<close>

text \<open>
  A \<^verbatim>\<open>Map<number, number>\<close> is an association list in insertion order:
  \<^verbatim>\<open>set\<close> on a key it has replaces the value where the key stands, which is
  \<^const>\<open>AList.update\<close>. \<^verbatim>\<open>adj[edge.source]\<close> is \<^verbatim>\<open>undefined\<close> for a source that
  is no agent index, and \<^verbatim>\<open>.set\<close> on it throws.
\<close>

definition addEdge :: "SimEdge \<Rightarrow> (nat \<times> real) list list \<Rightarrow> error + (nat \<times> real) list list" where
  "addEdge e adj =
     (if source e < length adj
      then Inr (adj[source e := AList.update (target e) (weight e) (adj ! source e)])
      else Inl TypeError)"

definition layerAdjOf :: "nat \<Rightarrow> SimLayer \<Rightarrow> error + (nat \<times> real) list list" where
  "layerAdjOf numAgents layer = foldE addEdge (edges layer) (replicate numAgents [])"

definition buildLayerAdj :: "nat \<Rightarrow> SimLayer list \<Rightarrow> error + (nat \<times> real) list list list" where
  "buildLayerAdj numAgents ls =
     foldE (\<lambda>layer acc. bindE (layerAdjOf numAgents layer) (\<lambda>adj. Inr (acc @ [adj]))) ls []"

subsection \<open>Firing\<close>

text \<open>
  JavaScript's \<^verbatim>\<open>%\<close> on integers takes the sign of the dividend, and is \<^verbatim>\<open>NaN\<close>
  (here \<open>None\<close>) for a zero divisor; \<^verbatim>\<open>NaN !== 0\<close> holds, so such a layer is skipped.
\<close>

definition js_rem :: "int \<Rightarrow> int \<Rightarrow> int option" where
  "js_rem a b = (if b = 0 then None else Some (sgn a * (\<bar>a\<bar> mod \<bar>b\<bar>)))"

definition fires :: "int \<Rightarrow> SimLayer \<Rightarrow> bool" where
  "fires iter layer = (js_rem (iter - 1) (frequency layer) = Some 0)"

subsection \<open>Spreading\<close>

text \<open>
  \<^verbatim>\<open>if (!c[l]) c[l] = 0; c[l]++\<close>. Past the end of the array JavaScript extends it;
  the holes it leaves below \<open>l\<close> are written as zeros here.
\<close>

definition bump :: "nat \<Rightarrow> nat list \<Rightarrow> nat list" where
  "bump l cnt =
     (if l < length cnt then cnt[l := cnt ! l + 1]
      else cnt @ replicate (l - length cnt) 0 @ [1])"

text \<open>
  The writes of one infection. Agents are objects shared by reference: an agent is
  its index in \<^verbatim>\<open>agents\<close>; the spreader is re-read after the neighbour was written.
\<close>

definition infect :: "nat \<Rightarrow> nat \<Rightarrow> nat \<Rightarrow> SimAgent list \<Rightarrow> SimAgent list" where
  "infect lid idx nid as =
     (let nb = as ! nid;
          as1 = as[nid := nb\<lparr>state := I,
                    infectedByLayer := (case infectedByLayer nb of None \<Rightarrow> Some lid | Some l \<Rightarrow> Some l)\<rparr>];
          ag = as1 ! idx
      in as1[idx := ag\<lparr>infectedCount := bump lid (infectedCount ag)\<rparr>])"

text \<open>The state of the loops: the agents, \<^verbatim>\<open>activeLayers\<close> and the draw position.\<close>

type_synonym stepState = "SimAgent list \<times> nat list \<times> nat"

text \<open>
  The callback of \<^verbatim>\<open>neighbors.forEach\<close>, for the spreader at index \<open>idx\<close>.
  \<^verbatim>\<open>agents[neighborId]\<close> out of range is \<^verbatim>\<open>undefined\<close>, and reading its state throws.
\<close>

definition tryInfect :: "rng \<Rightarrow> real \<Rightarrow> nat \<Rightarrow> nat \<Rightarrow> nat \<times> real \<Rightarrow> stepState \<Rightarrow> error + stepState" where
  "tryInfect rnd spreadRate lid idx = (\<lambda>(nid, w) (as, active, p).
     if nid < length as then
       (if state (as ! nid) = S then
          (if rnd p < spreadRate * w
           then Inr (infect lid idx nid as, setAdd lid active, p + 1)
           else Inr (as, active, p + 1))
        else Inr (as, active, p))
     else Inl TypeError)"

text \<open>
  The body of \<^verbatim>\<open>for (let agent of currentlyInfected)\<close>. \<open>adj\<close> is
  \<^verbatim>\<open>layerAdj[layer.id]\<close>, \<open>None\<close> when that is \<^verbatim>\<open>undefined\<close>; indexing it throws, and
  so does \<^verbatim>\<open>forEach\<close> on an \<^verbatim>\<open>adj[agent.id]\<close> that is \<^verbatim>\<open>undefined\<close>.
\<close>

definition spreadFrom :: "rng \<Rightarrow> real \<Rightarrow> nat \<Rightarrow> (nat \<times> real) list list option \<Rightarrow> nat \<Rightarrow> stepState \<Rightarrow> error + stepState" where
  "spreadFrom rnd spreadRate lid adj idx = (\<lambda>(as, active, p).
     case adj of
       None \<Rightarrow> Inl TypeError
     | Some rows \<Rightarrow>
         (let aid = agent_id (as ! idx) in
          if aid < length rows
          then foldE (tryInfect rnd spreadRate lid idx) (rows ! aid) (as, active, p)
          else Inl TypeError))"

text \<open>\<^verbatim>\<open>agents.filter(a => a.state === 'I')\<close>, as the indexes of the agents it keeps.\<close>

definition currentlyInfected :: "SimAgent list \<Rightarrow> nat list" where
  "currentlyInfected as = filter (\<lambda>i. state (as ! i) = I) [0..<length as]"

definition fireLayer :: "rng \<Rightarrow> real \<Rightarrow> (nat \<times> real) list list list \<Rightarrow> SimLayer \<Rightarrow> stepState \<Rightarrow> error + stepState" where
  "fireLayer rnd spreadRate layerAdj layer = (\<lambda>(as, active, p).
     foldE (spreadFrom rnd spreadRate (layer_id layer)
              (if layer_id layer < length layerAdj then Some (layerAdj ! layer_id layer) else None))
       (currentlyInfected as) (as, active, p))"

definition processLayer :: "rng \<Rightarrow> real \<Rightarrow> int \<Rightarrow> (nat \<times> real) list list list \<Rightarrow> SimLayer \<Rightarrow> stepState \<Rightarrow> error + stepState" where
  "processLayer rnd spreadRate iter layerAdj layer st =
     (if fires iter layer then fireLayer rnd spreadRate layerAdj layer st else Inr st)"

definition spreadPhase :: "rng \<Rightarrow> SimNetwork \<Rightarrow> real \<Rightarrow> int \<Rightarrow> nat \<Rightarrow> error + stepState" where
  "spreadPhase rnd network spreadRate iter p =
     bindE (buildLayerAdj (length (agents network)) (layers network))
       (\<lambda>layerAdj. foldE (processLayer rnd spreadRate iter layerAdj) (layers network)
                     (agents network, [], p))"

subsection \<open>Recovery\<close>

text \<open>\<^verbatim>\<open>&&\<close> draws only for an agent that is Infected.\<close>

definition recoverAgent :: "rng \<Rightarrow> real \<Rightarrow> nat \<Rightarrow> SimAgent list \<times> nat \<Rightarrow> SimAgent list \<times> nat" where
  "recoverAgent rnd recoveryRate i = (\<lambda>(as, p).
     if state (as ! i) = I then
       (if rnd p < recoveryRate then (as[i := (as ! i)\<lparr>state := R\<rparr>], p + 1) else (as, p + 1))
     else (as, p))"

definition recovery :: "rng \<Rightarrow> real \<Rightarrow> SimAgent list \<Rightarrow> nat \<Rightarrow> SimAgent list \<times> nat" where
  "recovery rnd recoveryRate as p = fold (recoverAgent rnd recoveryRate) [0..<length as] (as, p)"

definition simulateStep :: "rng \<Rightarrow> SimNetwork \<Rightarrow> real \<Rightarrow> real \<Rightarrow> int \<Rightarrow> nat \<Rightarrow> error + SimNetwork \<times> nat list \<times> nat" where
  "simulateStep rnd network spreadRate recoveryRate iter p =
     bindE (spreadPhase rnd network spreadRate iter p)
       (\<lambda>(as, active, p1).
          let (as', p2) = recovery rnd recoveryRate as p1
          in Inr (network\<lparr>agents := as'\<rparr>, active, p2))"

section \<open>Runs of the engine\<close>

text \<open>
  A caller's sequence of \<^verbatim>\<open>seedInfected\<close> and \<^verbatim>\<open>simulateStep\<close> calls on one network.
  The run keeps the network, the active-layer set of every step so far, and the draw
  position; an exception ends it, and a seeding that does not return makes it \<open>None\<close>.
\<close>

datatype operation = Seed int | Step real real int

type_synonym runState = "SimNetwork \<times> nat list list \<times> nat"

fun applyOp :: "rng \<Rightarrow> operation \<Rightarrow> runState \<Rightarrow> (error + runState) option" where
  "applyOp rnd (Seed count) (net, acts, p) =
     map_option (\<lambda>r. bindE r (\<lambda>(net', p'). Inr (net', acts, p'))) (seedInfected rnd net count p)"
| "applyOp rnd (Step spreadRate recoveryRate iter) (net, acts, p) =
     Some (bindE (simulateStep rnd net spreadRate recoveryRate iter p)
             (\<lambda>(net', active, p'). Inr (net', acts @ [active], p')))"

fun run :: "rng \<Rightarrow> operation list \<Rightarrow> runState \<Rightarrow> (error + runState) option" where
  "run rnd [] st = Some (Inr st)"
| "run rnd (op # ops) st =
     (case applyOp rnd op st of
        None \<Rightarrow> None
      | Some (Inl e) \<Rightarrow> Some (Inl e)
      | Some (Inr st') \<Rightarrow> run rnd ops st')"

section \<open>Properties of edge lists\<close>

text \<open>
  An edge list is symmetric as matched directed pairs when \<open>(u, v, w)\<close> is in it
  exactly when \<open>(v, u, w)\<close> is; its weights are in range when each lies in
  \<open>[0.3, 1.0]\<close>.
\<close>

definition symmetricPairs :: "SimEdge list \<Rightarrow> bool" where
  "symmetricPairs es = (\<forall>u v w. (\<lparr>source = u, target = v, weight = w\<rparr> \<in> set es)
       = (\<lparr>source = v, target = u, weight = w\<rparr> \<in> set es))"

definition weightsInRange :: "SimEdge list \<Rightarrow> bool" where
  "weightsInRange es = (\<forall>e \<in> set es. 0.3 \<le> weight e \<and> weight e \<le> 1)"

definition goodEdges :: "SimEdge list \<times> nat \<Rightarrow> bool" where
  "goodEdges st = (symmetricPairs (fst st) \<and> weightsInRange (fst st))"

section \<open>Properties of adjacency matrices\<close>

text \<open>
  A well-formed adjacency matrix over \<open>n\<close> agents: \<open>n\<close> rows of \<open>n\<close> entries, no
  self-loop on the diagonal, and symmetric. The key of an edge is its directed pair.
\<close>

definition adjOK :: "nat \<Rightarrow> bool list list \<Rightarrow> bool" where
  "adjOK n adj = (length adj = n \<and> (\<forall>i<n. length (adj ! i) = n)
     \<and> (\<forall>i<n. \<not> adj ! i ! i) \<and> (\<forall>i<n. \<forall>j<n. adj ! i ! j = adj ! j ! i))"

definition edgeKeys :: "SimEdge list \<Rightarrow> (nat \<times> nat) list" where
  "edgeKeys es = map (\<lambda>e. (source e, target e)) es"

definition noSelfLoops :: "SimEdge list \<Rightarrow> bool" where
  "noSelfLoops es = (\<forall>e \<in> set es. source e \<noteq> target e)"

section \<open>Properties of runs\<close>

text \<open>
  What one agent may do in the spreading loops (stay, or go from Susceptible to
  Infected), in the recovery loop (stay, or go from Infected to Recovered), and over
  any number of steps (never leave Recovered, never return to Susceptible).
\<close>

definition spreadOnly :: "SimAgent \<Rightarrow> SimAgent \<Rightarrow> bool" where
  "spreadOnly a a' = (state a' = state a \<or> (state a = S \<and> state a' = I))"

definition recoverOnly :: "SimAgent \<Rightarrow> SimAgent \<Rightarrow> bool" where
  "recoverOnly a a' = (state a' = state a \<or> (state a = I \<and> state a' = R))"

definition neverBack :: "SimAgent \<Rightarrow> SimAgent \<Rightarrow> bool" where
  "neverBack a a' = (case state a of S \<Rightarrow> True | I \<Rightarrow> state a' \<noteq> S | R \<Rightarrow> state a' = R)"

fun isStep :: "operation \<Rightarrow> bool" where
  "isStep (Step spreadRate recoveryRate iter) = True"
| "isStep (Seed count) = False"

section \<open>Example networks\<close>

text \<open>
  Three agents, the first one Infected. In \<open>seededChain\<close> the edge between agents 0
  and 1 is in layer 0 and the edge between agents 1 and 2 in layer 1, with the given
  frequencies; in \<open>seededLine\<close> both edges are in the one layer.
\<close>

definition seededAgents :: "nat \<Rightarrow> SimAgent list" where
  "seededAgents numLayers =
     [(newAgent numLayers 0)\<lparr>state := I\<rparr>, newAgent numLayers 1, newAgent numLayers 2]"

definition linkLayer :: "nat \<Rightarrow> (nat \<times> nat) list \<Rightarrow> int \<Rightarrow> SimLayer" where
  "linkLayer lid links freq =
     \<lparr>layer_id = lid,
      edges = concat (map (\<lambda>(u, v). pushPair u v 1 []) links),
      connectivity = 1, frequency = freq\<rparr>"

definition seededChain :: "int \<Rightarrow> int \<Rightarrow> SimNetwork" where
  "seededChain f0 f1 =
     \<lparr>agents = seededAgents 2,
      layers = [linkLayer 0 [(0, 1)] f0, linkLayer 1 [(1, 2)] f1]\<rparr>"


text \<open>The loop of \<^verbatim>\<open>chooseSeeds\<close> is evaluated by unfolding it.\<close>

declare chooseSeeds.simps [code]

section \<open>Well-formed networks\<close>

text \<open>
  What \<^verbatim>\<open>buildNetwork\<close> establishes and a step relies on to index its arrays: agent
  ids, layer ids and edge endpoints are in range.
\<close>

definition edgesInRange :: "nat \<Rightarrow> SimEdge list \<Rightarrow> bool" where
  "edgesInRange n es = (\<forall>e \<in> set es. source e < n \<and> target e < n)"

definition wfNetwork :: "SimNetwork \<Rightarrow> bool" where
  "wfNetwork net =
     ((\<forall>a \<in> set (agents net). agent_id a < length (agents net))
      \<and> (\<forall>l \<in> set (layers net). layer_id l < length (layers net)
            \<and> edgesInRange (length (agents net)) (edges l)))"

text \<open>The neighbour lookup of a layer whose edges are in range.\<close>

definition rowsInRange :: "nat \<Rightarrow> (nat \<times> real) list list \<Rightarrow> bool" where
  "rowsInRange n adj = (length adj = n \<and> (\<forall>row \<in> set adj. \<forall>k \<in> set (map fst row). k < n))"

definition sameIds :: "SimAgent list \<Rightarrow> SimAgent list \<Rightarrow> bool" where
  "sameIds as0 as = (map agent_id as = map agent_id as0)"

text \<open>Layers numbered by their position, with edges in range.\<close>

definition layersOK :: "nat \<Rightarrow> SimLayer list \<Rightarrow> bool" where
  "layersOK n ls = (\<forall>k < length ls. layer_id (ls ! k) = k \<and> edgesInRange n (edges (ls ! k)))"

section \<open>Attribution of infections to layers\<close>




section \<open>The snapshot of a layer's pass\<close>





section \<open>Properties of seeding\<close>

text \<open>
  The draws from position \<open>p\<close> on hold at least \<open>k\<close> distinct agent ids: what the
  seed loop waits for.
\<close>

definition enoughSeeds :: "rng \<Rightarrow> nat \<Rightarrow> int \<Rightarrow> nat \<Rightarrow> bool" where
  "enoughSeeds rnd n k p = (\<exists>q. k \<le> int (card ((\<lambda>j. drawIndex rnd j n) ` {p..<q})))"

text \<open>
  A network reset and seeded with \<open>count\<close> seeds: the same layers and agent ids,
  every agent with \<^verbatim>\<open>infectedByLayer\<close> \<^verbatim>\<open>null\<close> and \<^verbatim>\<open>infectedCount\<close> zero-filled to
  the number of layers, exactly \<open>min count numAgents\<close> agents Infected and all others
  Susceptible. No network is in this state for a negative \<open>count\<close>.
\<close>

definition resetSeeded :: "nat \<Rightarrow> SimAgent \<Rightarrow> bool" where
  "resetSeeded numLayers a =
     (infectedByLayer a = None \<and> infectedCount a = replicate numLayers 0
      \<and> (state a = S \<or> state a = I))"

definition seededState :: "SimNetwork \<Rightarrow> int \<Rightarrow> SimNetwork \<Rightarrow> bool" where
  "seededState net count net' =
     (layers net' = layers net
      \<and> map agent_id (agents net') = map agent_id (agents net)
      \<and> list_all (resetSeeded (length (layers net))) (agents net')
      \<and> int (length (filter (\<lambda>a. state a = I) (agents net')))
          = min count (int (length (agents net))))"

section \<open>Consistency of the attribution records\<close>

text \<open>
  Every Susceptible agent has no infecting layer, and the counters of all agents add up
  to the number of agents that have one: each spread infection is counted once.
\<close>

definition totalSpread :: "SimAgent list \<Rightarrow> nat" where
  "totalSpread as = sum_list (map (\<lambda>a. sum_list (infectedCount a)) as)"

definition numAttributed :: "SimAgent list \<Rightarrow> nat" where
  "numAttributed as = length (filter (\<lambda>a. infectedByLayer a \<noteq> None) as)"

definition attributionOK :: "SimAgent list \<Rightarrow> bool" where
  "attributionOK as =
     (list_all (\<lambda>a. state a \<noteq> S \<or> infectedByLayer a = None) as
      \<and> totalSpread as = numAttributed as)"

section \<open>Networks without layers\<close>

text \<open>No agent has an infecting layer or a counter: nothing was ever spread.\<close>

definition neverSpread :: "SimAgent list \<Rightarrow> bool" where
  "neverSpread as = list_all (\<lambda>a. infectedByLayer a = None \<and> infectedCount a = []) as"

text \<open>The random source that always draws \<open>c\<close>.\<close>

definition constDraws :: "real \<Rightarrow> rng" where
  "constDraws c = (\<lambda>p. c)"

section \<open>Dependence on the random source\<close>

text \<open>
  Two random sources agree from position \<open>a\<close> up to position \<open>b\<close>. A loop body that
  threads the draw position is local when it only moves the position forward and
  gives the same result for every source that agrees with this one on the draws it
  consumed; \<open>pos\<close> reads the position off the loop state.
\<close>

definition agree :: "rng \<Rightarrow> rng \<Rightarrow> nat \<Rightarrow> nat \<Rightarrow> bool" where
  "agree rnd rnd' a b = (\<forall>j. a \<le> j \<and> j < b \<longrightarrow> rnd j = rnd' j)"

definition localStep :: "('s \<Rightarrow> nat) \<Rightarrow> (rng \<Rightarrow> 's \<Rightarrow> 's) \<Rightarrow> rng \<Rightarrow> bool" where
  "localStep pos f rnd =
     (\<forall>s. pos s \<le> pos (f rnd s)
        \<and> (\<forall>rnd'. agree rnd rnd' (pos s) (pos (f rnd s)) \<longrightarrow> f rnd' s = f rnd s))"

definition localStepE :: "('s \<Rightarrow> nat) \<Rightarrow> (rng \<Rightarrow> 's \<Rightarrow> error + 's) \<Rightarrow> rng \<Rightarrow> bool" where
  "localStepE pos f rnd =
     (\<forall>s s'. f rnd s = Inr s' \<longrightarrow> pos s \<le> pos s'
        \<and> (\<forall>rnd'. agree rnd rnd' (pos s) (pos s') \<longrightarrow> f rnd' s = Inr s'))"

text \<open>
  The whole engine in its call order: \<^verbatim>\<open>buildNetwork\<close>, then the caller's seedings
  and steps on the network it built.
\<close>

definition engineRun :: "rng \<Rightarrow> nat \<Rightarrow> LayerConfig list \<Rightarrow> operation list \<Rightarrow> nat \<Rightarrow> (error + runState) option" where
  "engineRun rnd numAgents layerConfigs ops p =
     (case buildNetwork rnd numAgents layerConfigs p of
        Inl e \<Rightarrow> Some (Inl e)
      | Inr (net, p1) \<Rightarrow> run rnd ops (net, [], p1))"

text \<open>The draw position of the state of the spreading loops.\<close>

definition posOf :: "stepState \<Rightarrow> nat" where
  "posOf st = snd (snd st)"

text \<open>Example inputs of a run: a cycling random source, and two layer configurations.\<close>

definition cycleDraws :: rng where
  "cycleDraws = (\<lambda>p. real (p mod 4) / 4)"

definition cycleThenZero :: "nat \<Rightarrow> rng" where
  "cycleThenZero b = (\<lambda>p. if p < b then real (p mod 4) / 4 else 0)"

definition twoConfigs :: "LayerConfig list" where
  "twoConfigs =
     [\<lparr>cfg_connectivity = 1, cfg_frequency = 1, cfg_topology = random\<rparr>,
      \<lparr>cfg_connectivity = 1 / 2, cfg_frequency = 2, cfg_topology = smallworld\<rparr>]"

section \<open>The passes of one step\<close>








definition spentChain :: SimNetwork where
  "spentChain =
     \<lparr>agents =
        [\<lparr>agent_id = 0, state = R, infectedByLayer = None, infectedCount = [1]\<rparr>,
         \<lparr>agent_id = 1, state = I, infectedByLayer = Some 0, infectedCount = [0, 1, 4]\<rparr>,
         \<lparr>agent_id = 2, state = I, infectedByLayer = Some 1, infectedCount = []\<rparr>],
      layers = [linkLayer 0 [(0, 1)] 1, linkLayer 1 [(1, 2)] 1]\<rparr>"

section \<open>Auxiliary facts\<close>

subsection \<open>Loops and their invariants\<close>

lemma fold_inv:
  assumes "P s" and "\<And>x s. x \<in> set xs \<Longrightarrow> P s \<Longrightarrow> P (f x s)"
  shows "P (fold f xs s)"
  using assms by (induction xs arbitrary: s) auto

lemma foldE_inv:
  assumes "foldE f xs s = Inr s'" and "P s"
    and "\<And>x s s'. x \<in> set xs \<Longrightarrow> P s \<Longrightarrow> f x s = Inr s' \<Longrightarrow> P s'"
  shows "P s'"
  using assms
proof (induction xs arbitrary: s)
  case Nil
  then show ?case by simp
next
  case (Cons x xs)
  from Cons.prems(1) obtain s1 where s1: "f x s = Inr s1" and rest: "foldE f xs s1 = Inr s'"
    by (auto simp: bindE_def split: sum.splits)
  have "P s1" using Cons.prems(2,3) s1 by auto
  then show ?case using Cons.IH [OF rest] Cons.prems(3) by auto
qed

lemma foldE_total:
  assumes "P s" and "\<And>x s. x \<in> set xs \<Longrightarrow> P s \<Longrightarrow> \<exists>s'. f x s = Inr s' \<and> P s'"
  shows "\<exists>s'. foldE f xs s = Inr s' \<and> P s'"
  using assms
proof (induction xs arbitrary: s)
  case Nil
  then show ?case by simp
next
  case (Cons x xs)
  from Cons.prems obtain s1 where s1: "f x s = Inr s1" "P s1" by fastforce
  have "\<exists>s'. foldE f xs s1 = Inr s' \<and> P s'"
    using Cons.IH [OF s1(2)] Cons.prems(2) by auto
  then show ?case using s1 by (simp add: bindE_def)
qed

text \<open>A counting loop, with an invariant that knows the counter.\<close>

lemma fold_upt_inv:
  assumes "P a s" and "a \<le> b"
    and "\<And>j s. a \<le> j \<Longrightarrow> j < b \<Longrightarrow> P j s \<Longrightarrow> P (Suc j) (f j s)"
  shows "P b (fold f [a..<b] s)"
  using assms(2,3)
proof (induction b)
  case 0
  then show ?case using assms(1) by simp
next
  case (Suc b)
  show ?case
  proof (cases "a = Suc b")
    case True
    then show ?thesis using assms(1) by simp
  next
    case False
    then have ab: "a \<le> b" using Suc.prems(1) by simp
    have "P b (fold f [a..<b] s)"
      using Suc.IH [OF ab] Suc.prems(2) by simp
    then show ?thesis using ab Suc.prems(2) [of b] by simp
  qed
qed

subsection \<open>Edge lists keep matched pairs and weights in range\<close>

lemma pushPair_sym: "symmetricPairs es \<Longrightarrow> symmetricPairs (pushPair i j w es)"
  by (auto simp: symmetricPairs_def pushPair_def)

lemma drawWeight_range:
  assumes "unit_draws rnd"
  shows "0.3 \<le> drawWeight rnd p \<and> drawWeight rnd p \<le> 1"
proof -
  from assms have "0 \<le> rnd p" "rnd p < 1" by (auto simp: unit_draws_def)
  then show ?thesis by (simp add: drawWeight_def)
qed

lemma pushPair_range:
  "weightsInRange es \<Longrightarrow> 0.3 \<le> w \<Longrightarrow> w \<le> 1 \<Longrightarrow> weightsInRange (pushPair i j w es)"
  by (auto simp: weightsInRange_def pushPair_def)

lemma randomPair_good: "unit_draws rnd \<Longrightarrow> goodEdges st \<Longrightarrow> goodEdges (randomPair rnd c i j st)"
  using drawWeight_range [of rnd]
  by (cases st) (simp add: goodEdges_def randomPair_def pushPair_sym pushPair_range)

lemma adjPair_good: "unit_draws rnd \<Longrightarrow> goodEdges st \<Longrightarrow> goodEdges (adjPair rnd adj i j st)"
  using drawWeight_range [of rnd]
  by (cases st) (simp add: goodEdges_def adjPair_def pushPair_sym pushPair_range)

lemma goodEdges_Nil: "goodEdges ([], p)"
  by (simp add: goodEdges_def symmetricPairs_def weightsInRange_def)

lemma buildRandomLayer_good: "unit_draws rnd \<Longrightarrow> goodEdges (buildRandomLayer rnd n c p)"
  unfolding buildRandomLayer_def
  by (rule fold_inv [where P = goodEdges], rule goodEdges_Nil,
      rule fold_inv [where P = goodEdges], assumption, rule randomPair_good)

lemma edgesOfAdj_good: "unit_draws rnd \<Longrightarrow> goodEdges (edgesOfAdj rnd n adj p)"
  unfolding edgesOfAdj_def
  by (rule fold_inv [where P = goodEdges], rule goodEdges_Nil,
      rule fold_inv [where P = goodEdges], assumption, rule adjPair_good)

subsection \<open>Degenerate sizes\<close>

lemma ringK_0: "ringK 0 c = - 1"
  by (simp add: ringK_def)

lemma ringK_1: "ringK (Suc 0) c = 0"
  by (simp add: ringK_def)

lemma edgesOfAdj_0: "edgesOfAdj rnd 0 adj p = ([], p)"
  by (simp add: edgesOfAdj_def)

lemma edgesOfAdj_1: "edgesOfAdj rnd (Suc 0) adj p = ([], p)"
  by (simp add: edgesOfAdj_def)

lemma random_0: "buildRandomLayer rnd 0 c p = ([], p)"
  by (simp add: buildRandomLayer_def)

lemma random_1: "buildRandomLayer rnd (Suc 0) c p = ([], p)"
  by (simp add: buildRandomLayer_def)

lemma smallworld_0: "buildSmallWorldLayer rnd 0 c p = Inr ([], p)"
  by (simp add: buildSmallWorldLayer_def ringK_0 rewire_def bindE_def edgesOfAdj_0)

lemma smallworld_1: "buildSmallWorldLayer rnd (Suc 0) c p = Inr ([], p)"
  by (simp add: buildSmallWorldLayer_def ringK_1 rewire_def bindE_def edgesOfAdj_1 ringOffsets_def)

lemma scalefree_0: "buildScaleFreeLayer rnd 0 c p = ([], p)"
  by (simp add: buildScaleFreeLayer_def edgesOfAdj_0)

lemma scalefree_1: "buildScaleFreeLayer rnd (Suc 0) c p = ([], p)"
  by (simp add: buildScaleFreeLayer_def edgesOfAdj_1 Let_def)

section \<open>Degenerate sizes give no edges\<close>

text \<open>
  C8. For every connectivity, each of the three generators returns the empty edge
  list for no agent and for one agent; the small-world generator, the only one that
  can throw, returns normally; and no generator consumes a draw.
\<close>

theorem degenerate_sizes_no_edges:
  "buildRandomLayer rnd 0 c p = ([], p) \<and> buildRandomLayer rnd 1 c p = ([], p)
   \<and> buildSmallWorldLayer rnd 0 c p = Inr ([], p) \<and> buildSmallWorldLayer rnd 1 c p = Inr ([], p)
   \<and> buildScaleFreeLayer rnd 0 c p = ([], p) \<and> buildScaleFreeLayer rnd 1 c p = ([], p)"
  by (simp add: random_0 random_1 smallworld_0 smallworld_1 scalefree_0 scalefree_1)

subsection \<open>The adjacency matrix\<close>

lemma drawIndex_range:
  assumes "unit_draws rnd" and "0 < n"
  shows "0 \<le> drawIndex rnd p n \<and> drawIndex rnd p n < int n"
proof -
  from assms have r: "0 \<le> rnd p" "rnd p < 1" by (auto simp: unit_draws_def)
  have "0 \<le> rnd p * real n" using r by simp
  moreover have "rnd p * real n < real n" using r assms(2) by simp
  ultimately show ?thesis
    by (simp add: drawIndex_def floor_less_iff)
qed

lemma retryTarget_range:
  "unit_draws rnd \<Longrightarrow> 0 < n \<Longrightarrow> 0 \<le> newJ \<and> newJ < int n \<Longrightarrow>
     0 \<le> fst (retryTarget rnd n adj i newJ a p) \<and> fst (retryTarget rnd n adj i newJ a p) < int n"
proof (induction rnd n adj i newJ a p rule: retryTarget.induct)
  case (1 rnd numAgents adj i newJ attempts p)
  show ?case
  proof (cases "(newJ = int i \<or> adjAt adj i newJ) \<and> attempts < numAgents")
    case True
    then have eq: "retryTarget rnd numAgents adj i newJ attempts p =
        retryTarget rnd numAgents adj i (drawIndex rnd p numAgents) (attempts + 1) (p + 1)"
      by (subst retryTarget.simps) simp
    show ?thesis
      unfolding eq
      by (rule "1.IH" [OF True "1.prems"(1,2) drawIndex_range [OF "1.prems"(1,2)]])
  next
    case False
    then have "retryTarget rnd numAgents adj i newJ attempts p = (newJ, p)"
      by (subst retryTarget.simps) auto
    then show ?thesis using "1.prems"(3) by simp
  qed
qed

lemma length_set2 [simp]: "length (set2 adj i j v) = length adj"
  by (simp add: set2_def)

lemma length_row_set2 [simp]: "length (set2 adj i j v ! a) = length (adj ! a)"
  by (cases "i < length adj"; cases "a = i") (simp_all add: set2_def list_update_beyond)

lemma nth_set2:
  "i < length adj \<Longrightarrow> j < length (adj ! i) \<Longrightarrow>
   set2 adj i j v ! a ! b = (if a = i \<and> b = j then v else adj ! a ! b)"
  by (cases "a = i"; cases "b = j") (simp_all add: set2_def)

lemma adjOK_pair:
  assumes "adjOK n adj" "i < n" "j < n" "i \<noteq> j"
  shows "adjOK n (set2 (set2 adj i j v) j i v)"
  using assms unfolding adjOK_def
  by (auto simp: nth_set2)

lemma adjOK_empty: "adjOK n (emptyAdj n)"
  by (simp add: adjOK_def emptyAdj_def)

lemma ringOffsets_bounds:
  assumes "m \<in> set (ringOffsets (ringK n c))"
  shows "0 < m \<and> m < n"
proof -
  have k: "ringK n c \<le> int n - 1" by (simp add: ringK_def)
  from assms have "1 \<le> m" "int m \<le> ringK n c div 2" by (auto simp: ringOffsets_def)
  then show ?thesis using k by linarith
qed

lemma ring_neighbour:
  assumes "i < n" "0 < m" "m < (n::nat)"
  shows "(i + m) mod n \<noteq> i \<and> (i + m) mod n < n"
proof (cases "i + m < n")
  case True
  then show ?thesis using assms by simp
next
  case False
  then have e: "(i + m) mod n = i + m - n"
    using assms by (simp add: mod_if)
  show ?thesis unfolding e using assms False by linarith
qed

subsection \<open>The ring lattice and its rewiring\<close>

lemma latticeStep_OK:
  assumes "adjOK n adj" "i < n" "m \<in> set (ringOffsets (ringK n c))"
  shows "adjOK n (latticeStep n i m adj)"
proof -
  from ringOffsets_bounds [OF assms(3)] have m: "0 < m" "m < n" by auto
  from ring_neighbour [OF assms(2) m] have j: "(i + m) mod n \<noteq> i" "(i + m) mod n < n" by auto
  have "adjOK n (set2 (set2 adj i ((i + m) mod n) True) ((i + m) mod n) i True)"
    using j(1) by (intro adjOK_pair [OF assms(1,2) j(2)]) simp
  then show ?thesis
    by (simp add: latticeStep_def Let_def)
qed

lemma ringLattice_OK: "adjOK n (ringLattice n (ringK n c))"
  unfolding ringLattice_def
proof (rule fold_inv [where P = "adjOK n"])
  show "adjOK n (emptyAdj n)" by (rule adjOK_empty)
next
  fix i adj
  assume i: "i \<in> set [0..<n]" and ok: "adjOK n adj"
  show "adjOK n (fold (latticeStep n i) (ringOffsets (ringK n c)) adj)"
  proof (rule fold_inv [where P = "adjOK n"])
    show "adjOK n adj" by (rule ok)
  next
    fix m adj'
    assume "m \<in> set (ringOffsets (ringK n c))" "adjOK n adj'"
    then show "adjOK n (latticeStep n i m adj')"
      using i by (intro latticeStep_OK) auto
  qed
qed

lemma rewireStep_unfold:
  "rewireStep rnd n i m (adj, p) =
     (if rnd p < 0.1 then
        (let adj1 = set2 (set2 adj i ((i + m) mod n) False) ((i + m) mod n) i False;
             r = retryTarget rnd n adj1 i (drawIndex rnd (p + 1) n) 0 (p + 2)
         in if fst r \<noteq> int i \<and> \<not> adjAt adj1 i (fst r) then
              (if 0 \<le> fst r \<and> nat (fst r) < n
               then Inr (set2 (set2 adj1 i (nat (fst r)) True) (nat (fst r)) i True, snd r)
               else Inl TypeError)
            else Inr (adj1, snd r))
      else Inr (adj, p + 1))"
  by (simp add: rewireStep_def Let_def split: prod.splits)

text \<open>The rewiring step keeps the matrix well-formed whenever it returns.\<close>

lemma rewireStep_OK:
  assumes "rewireStep rnd n i m (adj, p) = Inr (adj', p')"
    and "adjOK n adj" "i < n" "m \<in> set (ringOffsets (ringK n c))"
  shows "adjOK n adj'"
proof -
  from ringOffsets_bounds [OF assms(4)] have m: "0 < m" "m < n" by auto
  from ring_neighbour [OF assms(3) m] have j: "(i + m) mod n \<noteq> i" "(i + m) mod n < n" by auto
  define adj1 where "adj1 = set2 (set2 adj i ((i + m) mod n) False) ((i + m) mod n) i False"
  define r where "r = retryTarget rnd n adj1 i (drawIndex rnd (p + 1) n) 0 (p + 2)"
  have ok1: "adjOK n adj1"
    unfolding adj1_def using j(1) by (intro adjOK_pair [OF assms(2,3) j(2)]) simp
  have ok2: "adjOK n (set2 (set2 adj1 i (nat (fst r)) True) (nat (fst r)) i True)"
    if "fst r \<noteq> int i" "0 \<le> fst r" "nat (fst r) < n"
    using that by (intro adjOK_pair [OF ok1 assms(3)]) auto
  have "rewireStep rnd n i m (adj, p) =
     (if rnd p < 0.1 then
        (if fst r \<noteq> int i \<and> \<not> adjAt adj1 i (fst r) then
              (if 0 \<le> fst r \<and> nat (fst r) < n
               then Inr (set2 (set2 adj1 i (nat (fst r)) True) (nat (fst r)) i True, snd r)
               else Inl TypeError)
            else Inr (adj1, snd r))
      else Inr (adj, p + 1))"
    by (simp add: rewireStep_unfold Let_def adj1_def r_def)
  with assms(1) show ?thesis
    using ok1 ok2 assms(2) by (auto split: if_splits)
qed

lemma rewireStep_total:
  assumes "unit_draws rnd" "i < n"
  shows "\<exists>st'. rewireStep rnd n i m st = Inr st'"
proof -
  obtain adj p where st: "st = (adj, p)" by (cases st)
  have n: "0 < n" using assms(2) by simp
  define adj1 where "adj1 = set2 (set2 adj i ((i + m) mod n) False) ((i + m) mod n) i False"
  define r where "r = retryTarget rnd n adj1 i (drawIndex rnd (p + 1) n) 0 (p + 2)"
  have "0 \<le> fst r \<and> fst r < int n"
    unfolding r_def
    by (rule retryTarget_range [OF assms(1) n drawIndex_range [OF assms(1) n]])
  then have inr: "0 \<le> fst r \<and> nat (fst r) < n" by auto
  have "rewireStep rnd n i m (adj, p) =
     (if rnd p < 0.1 then
        (if fst r \<noteq> int i \<and> \<not> adjAt adj1 i (fst r) then
              (if 0 \<le> fst r \<and> nat (fst r) < n
               then Inr (set2 (set2 adj1 i (nat (fst r)) True) (nat (fst r)) i True, snd r)
               else Inl TypeError)
            else Inr (adj1, snd r))
      else Inr (adj, p + 1))"
    by (simp add: rewireStep_unfold Let_def adj1_def r_def)
  then show ?thesis
    unfolding st using inr by simp
qed

lemma rewire_OK:
  assumes "rewire rnd n (ringK n c) st = Inr st'" and "adjOK n (fst st)"
  shows "adjOK n (fst st')"
  using assms(1) unfolding rewire_def
proof (rule foldE_inv [where P = "\<lambda>st. adjOK n (fst st)"])
  show "adjOK n (fst st)" by (rule assms(2))
next
  fix i s s'
  assume i: "i \<in> set [0..<n]" and ok: "adjOK n (fst s)"
    and run: "foldE (rewireStep rnd n i) (ringOffsets (ringK n c)) s = Inr s'"
  from run show "adjOK n (fst s')"
  proof (rule foldE_inv [where P = "\<lambda>st. adjOK n (fst st)"])
    show "adjOK n (fst s)" by (rule ok)
  next
    fix m t t'
    assume "m \<in> set (ringOffsets (ringK n c))" "adjOK n (fst t)" "rewireStep rnd n i m t = Inr t'"
    then show "adjOK n (fst t')"
      using i rewireStep_OK [of rnd n i m "fst t" "snd t" "fst t'" "snd t'" c] by simp
  qed
qed

lemma rewire_total:
  assumes "unit_draws rnd"
  shows "\<exists>st'. rewire rnd n k st = Inr st'"
proof -
  have "\<exists>st'. rewire rnd n k st = Inr st' \<and> True"
    unfolding rewire_def
  proof (rule foldE_total [where P = "\<lambda>_. True"])
    fix i s
    assume i: "i \<in> set [0..<n]"
    show "\<exists>s'. foldE (rewireStep rnd n i) (ringOffsets k) s = Inr s' \<and> True"
    proof (rule foldE_total [where P = "\<lambda>_. True"])
      fix m t
      show "\<exists>t'. rewireStep rnd n i m t = Inr t' \<and> True"
        using rewireStep_total [OF assms, of i n m t] i by simp
    qed simp
  qed simp
  then show ?thesis by simp
qed

text \<open>The final double loop pushes each unordered pair once, and never a self-loop.\<close>

lemma edgesOfAdj_distinct:
  "distinct (edgeKeys (fst (edgesOfAdj rnd n adj p)))
   \<and> (\<forall>e \<in> set (fst (edgesOfAdj rnd n adj p)). source e \<noteq> target e)"
proof -
  let ?inner = "\<lambda>(i::nat) (j::nat) (st::SimEdge list \<times> nat). distinct (edgeKeys (fst st)) \<and>
      (\<forall>e \<in> set (fst st). source e \<noteq> target e \<and>
         (min (source e) (target e) < i \<or>
          (min (source e) (target e) = i \<and> max (source e) (target e) < j)))"
  let ?outer = "\<lambda>(i::nat) (st::SimEdge list \<times> nat). distinct (edgeKeys (fst st)) \<and>
      (\<forall>e \<in> set (fst st). source e \<noteq> target e \<and> min (source e) (target e) < i)"
  have step: "?inner i (Suc j) (adjPair rnd adj i j st)" if "?inner i j st" "i < j" for i j st
  proof (cases st)
    case (Pair es q)
    have "(i, j) \<notin> set (edgeKeys es)" "(j, i) \<notin> set (edgeKeys es)"
      using that Pair by (auto simp: edgeKeys_def)
    then show ?thesis
      using that Pair by (auto simp: adjPair_def pushPair_def edgeKeys_def)
  qed
  have inner: "?outer (Suc i) (fold (adjPair rnd adj i) [i + 1..<n] st)"
    if "?outer i st" "i < n" for i st
  proof -
    have "?inner i n (fold (adjPair rnd adj i) [i + 1..<n] st)"
    proof (rule fold_upt_inv [where P = "?inner i"])
      show "?inner i (i + 1) st" using that(1) by auto
      show "i + 1 \<le> n" using that(2) by simp
    next
      fix j s
      assume "i + 1 \<le> j" "j < n" "?inner i j s"
      then show "?inner i (Suc j) (adjPair rnd adj i j s)"
        by (intro step) auto
    qed
    then show ?thesis by auto
  qed
  have "?outer n (fold (\<lambda>i. fold (adjPair rnd adj i) [i + 1..<n]) [0..<n] ([], p))"
  proof (rule fold_upt_inv [where P = ?outer])
    show "?outer 0 ([], p)" by (simp add: edgeKeys_def)
    show "0 \<le> n" by simp
  next
    fix i s
    assume "0 \<le> i" "i < n" "?outer i s"
    then show "?outer (Suc i) (fold (adjPair rnd adj i) [i + 1..<n] s)"
      by (intro inner) auto
  qed
  then show ?thesis by (simp add: edgesOfAdj_def)
qed

lemma smallworld_returns:
  assumes "unit_draws rnd"
  shows "\<exists>es p'. buildSmallWorldLayer rnd n c p = Inr (es, p')"
proof -
  from rewire_total [OF assms] obtain adj p1
    where "rewire rnd n (ringK n c) (ringLattice n (ringK n c), p) = Inr (adj, p1)"
    by fastforce
  then show ?thesis
    by (cases "edgesOfAdj rnd n adj p1") (simp add: buildSmallWorldLayer_def Let_def bindE_def)
qed

lemma smallworld_result:
  assumes "buildSmallWorldLayer rnd n c p = Inr (es, p2)"
  shows "\<exists>adj p1. rewire rnd n (ringK n c) (ringLattice n (ringK n c), p) = Inr (adj, p1)
           \<and> edgesOfAdj rnd n adj p1 = (es, p2)"
  using assms
  by (auto simp: buildSmallWorldLayer_def Let_def bindE_def split: sum.splits)

section \<open>Matched pairs and weights of the generated edges\<close>

text \<open>
  C6. With draws in \<open>[0, 1)\<close>, for every number of agents and every connectivity, the
  edge list each of the three generators returns holds \<open>(u, v, w)\<close> exactly when it
  holds \<open>(v, u, w)\<close>, and every weight lies in \<open>[0.3, 1.0]\<close>; the small-world
  generator returns normally.
\<close>

theorem generators_matched_pairs_weights_in_range:
  assumes "unit_draws rnd"
  shows "symmetricPairs (fst (buildRandomLayer rnd n c p))
       \<and> weightsInRange (fst (buildRandomLayer rnd n c p))
       \<and> (\<exists>es p'. buildSmallWorldLayer rnd n c p = Inr (es, p')
             \<and> symmetricPairs es \<and> weightsInRange es)
       \<and> symmetricPairs (fst (buildScaleFreeLayer rnd n c p))
       \<and> weightsInRange (fst (buildScaleFreeLayer rnd n c p))"
proof -
  have r: "goodEdges (buildRandomLayer rnd n c p)"
    by (rule buildRandomLayer_good [OF assms])
  from smallworld_returns [OF assms] obtain es p'
    where sw: "buildSmallWorldLayer rnd n c p = Inr (es, p')" by blast
  from smallworld_result [OF sw] obtain adj p1 where "edgesOfAdj rnd n adj p1 = (es, p')"
    by blast
  with edgesOfAdj_good [OF assms, of n adj p1] have s: "goodEdges (es, p')" by simp
  have f: "goodEdges (buildScaleFreeLayer rnd n c p)"
    by (simp add: buildScaleFreeLayer_def Let_def edgesOfAdj_good [OF assms] split: prod.splits)
  show ?thesis
    using r s f sw by (simp add: goodEdges_def)
qed

theorem generators_matched_pairs_weights_in_range_witness:
  "unit_draws (\<lambda>p. 1 / 4)
   \<and> symmetricPairs (fst (buildRandomLayer (\<lambda>p. 1 / 4) 3 (1 / 2) 0))
   \<and> weightsInRange (fst (buildRandomLayer (\<lambda>p. 1 / 4) 3 (1 / 2) 0))
   \<and> (\<exists>es p'. buildSmallWorldLayer (\<lambda>p. 1 / 4) 3 (1 / 2) 0 = Inr (es, p')
         \<and> symmetricPairs es \<and> weightsInRange es)
   \<and> symmetricPairs (fst (buildScaleFreeLayer (\<lambda>p. 1 / 4) 3 (1 / 2) 0))
   \<and> weightsInRange (fst (buildScaleFreeLayer (\<lambda>p. 1 / 4) 3 (1 / 2) 0))
   \<and> length (fst (buildRandomLayer (\<lambda>p. 1 / 4) 3 (1 / 2) 0)) = 6"
proof -
  have u: "unit_draws (\<lambda>p. 1 / 4)" by (simp add: unit_draws_def)
  have l: "length (fst (buildRandomLayer (\<lambda>p. 1 / 4) 3 (1 / 2) 0)) = 6" by code_simp
  show ?thesis
    using u l generators_matched_pairs_weights_in_range [OF u, of 3 "1 / 2" 0] by simp
qed

section \<open>Small-world rewiring makes no self-loop and no duplicate\<close>

text \<open>
  C7. For every number of agents, connectivity and sequence of draws, whenever
  \<^verbatim>\<open>buildSmallWorldLayer\<close> returns, the adjacency matrix left by the rewiring has an
  empty diagonal and is symmetric, and the edge list read off it has no edge from an
  agent to itself and no directed pair twice. With draws in \<open>[0, 1)\<close> it does return.
\<close>

theorem smallworld_no_selfloop_no_duplicate:
  "(unit_draws rnd \<longrightarrow> (\<exists>es p2. buildSmallWorldLayer rnd n c p = Inr (es, p2)))
   \<and> (\<forall>es p2. buildSmallWorldLayer rnd n c p = Inr (es, p2) \<longrightarrow>
        (\<exists>adj p1. rewire rnd n (ringK n c) (ringLattice n (ringK n c), p) = Inr (adj, p1)
           \<and> edgesOfAdj rnd n adj p1 = (es, p2)
           \<and> (\<forall>i<n. \<not> adj ! i ! i) \<and> (\<forall>i<n. \<forall>j<n. adj ! i ! j = adj ! j ! i)
           \<and> noSelfLoops es \<and> distinct (edgeKeys es)))"
proof (intro conjI allI impI)
  assume "unit_draws rnd"
  then show "\<exists>es p2. buildSmallWorldLayer rnd n c p = Inr (es, p2)"
    by (rule smallworld_returns)
next
  fix es p2
  assume sw: "buildSmallWorldLayer rnd n c p = Inr (es, p2)"
  from smallworld_result [OF sw] obtain adj p1
    where rw: "rewire rnd n (ringK n c) (ringLattice n (ringK n c), p) = Inr (adj, p1)"
      and ed: "edgesOfAdj rnd n adj p1 = (es, p2)" by blast
  from rewire_OK [OF rw] ringLattice_OK have "adjOK n adj" by simp
  moreover from edgesOfAdj_distinct [of rnd n adj p1] ed
  have "noSelfLoops es \<and> distinct (edgeKeys es)" by (simp add: noSelfLoops_def)
  ultimately show "\<exists>adj p1. rewire rnd n (ringK n c) (ringLattice n (ringK n c), p) = Inr (adj, p1)
           \<and> edgesOfAdj rnd n adj p1 = (es, p2)
           \<and> (\<forall>i<n. \<not> adj ! i ! i) \<and> (\<forall>i<n. \<forall>j<n. adj ! i ! j = adj ! j ! i)
           \<and> noSelfLoops es \<and> distinct (edgeKeys es)"
    using rw ed unfolding adjOK_def by blast
qed

theorem smallworld_no_selfloop_no_duplicate_witness:
  "unit_draws (\<lambda>p. 1 / 20)
   \<and> buildSmallWorldLayer (\<lambda>p. 1 / 20) 4 (1 / 2) 0 =
       Inr ([\<lparr>source = 0, target = 1, weight = 67 / 200\<rparr>,
             \<lparr>source = 1, target = 0, weight = 67 / 200\<rparr>,
             \<lparr>source = 0, target = 2, weight = 67 / 200\<rparr>,
             \<lparr>source = 2, target = 0, weight = 67 / 200\<rparr>,
             \<lparr>source = 0, target = 3, weight = 67 / 200\<rparr>,
             \<lparr>source = 3, target = 0, weight = 67 / 200\<rparr>], 15)
   \<and> noSelfLoops [\<lparr>source = 0, target = 1, weight = 67 / 200\<rparr>,
             \<lparr>source = 1, target = 0, weight = 67 / 200\<rparr>,
             \<lparr>source = 0, target = 2, weight = 67 / 200\<rparr>,
             \<lparr>source = 2, target = 0, weight = 67 / 200\<rparr>,
             \<lparr>source = 0, target = 3, weight = 67 / 200\<rparr>,
             \<lparr>source = 3, target = 0, weight = 67 / 200\<rparr>]
   \<and> distinct (edgeKeys [\<lparr>source = 0, target = 1, weight = 67 / 200\<rparr>,
             \<lparr>source = 1, target = 0, weight = 67 / 200\<rparr>,
             \<lparr>source = 0, target = 2, weight = 67 / 200\<rparr>,
             \<lparr>source = 2, target = 0, weight = 67 / 200\<rparr>,
             \<lparr>source = 0, target = 3, weight = 67 / 200\<rparr>,
             \<lparr>source = 3, target = 0, weight = 67 / 200\<rparr>])"
proof -
  have u: "unit_draws (\<lambda>p. 1 / 20)" by (simp add: unit_draws_def)
  have ev: "buildSmallWorldLayer (\<lambda>p. 1 / 20) 4 (1 / 2) 0 =
       Inr ([\<lparr>source = 0, target = 1, weight = 67 / 200\<rparr>,
             \<lparr>source = 1, target = 0, weight = 67 / 200\<rparr>,
             \<lparr>source = 0, target = 2, weight = 67 / 200\<rparr>,
             \<lparr>source = 2, target = 0, weight = 67 / 200\<rparr>,
             \<lparr>source = 0, target = 3, weight = 67 / 200\<rparr>,
             \<lparr>source = 3, target = 0, weight = 67 / 200\<rparr>], 15)"
    by code_simp
  from smallworld_no_selfloop_no_duplicate [of "\<lambda>p. 1 / 20" 4 "1 / 2" 0] ev u
  show ?thesis by auto
qed

subsection \<open>Induction principles for the loops of a step\<close>

lemma length_infect [simp]: "length (infect lid idx nid as) = length as"
  by (simp add: infect_def Let_def)

lemma state_infect:
  "nid < length as \<Longrightarrow> idx < length as \<Longrightarrow>
   state (infect lid idx nid as ! i) = (if i = nid then I else state (as ! i))"
  by (simp add: infect_def Let_def nth_list_update)

lemma agent_id_infect:
  "nid < length as \<Longrightarrow> idx < length as \<Longrightarrow> agent_id (infect lid idx nid as ! i) = agent_id (as ! i)"
  by (simp add: infect_def Let_def nth_list_update)

lemma infectedByLayer_infect:
  "nid < length as \<Longrightarrow> idx < length as \<Longrightarrow>
   infectedByLayer (infect lid idx nid as ! i) =
     (if i = nid then (case infectedByLayer (as ! i) of None \<Rightarrow> Some lid | Some l \<Rightarrow> Some l)
      else infectedByLayer (as ! i))"
  by (simp add: infect_def Let_def nth_list_update)


text \<open>What one call of the \<^verbatim>\<open>forEach\<close> callback can do.\<close>

lemma tryInfect_cases:
  assumes "tryInfect rnd sr lid idx nb (as, act, p) = Inr (as', act', p')"
  obtains (same) "as' = as" "act' = act" "p' = p \<or> p' = p + 1"
    | (infected) "fst nb < length as" "state (as ! fst nb) = S" "rnd p < sr * snd nb"
        "as' = infect lid idx (fst nb) as" "act' = setAdd lid act" "p' = p + 1"
  using assms
  by (cases nb) (auto simp: tryInfect_def split: if_splits)

lemma fireLayer_induct:
  assumes run: "fireLayer rnd sr layerAdj l (as0, act0, p0) = Inr (as', act', p')"
    and base: "Q (as0, act0, p0)"
    and skip: "\<And>as act q. Q (as, act, q) \<Longrightarrow> length as = length as0 \<Longrightarrow> Q (as, act, q + 1)"
    and inf: "\<And>idx nid w as act q. Q (as, act, q) \<Longrightarrow> length as = length as0 \<Longrightarrow>
        idx < length as0 \<Longrightarrow> state (as0 ! idx) = I \<Longrightarrow> nid < length as \<Longrightarrow>
        state (as ! nid) = S \<Longrightarrow> rnd q < sr * w \<Longrightarrow>
        Q (infect (layer_id l) idx nid as, setAdd (layer_id l) act, q + 1)"
  shows "Q (as', act', p') \<and> length as' = length as0"
proof -
  let ?P = "\<lambda>st. Q st \<and> length (fst st) = length as0"
  have "?P (as', act', p')"
    using run unfolding fireLayer_def prod.case
  proof (rule foldE_inv [where P = ?P])
    show "?P (as0, act0, p0)" using base by simp
  next
    fix idx s s'
    assume idx: "idx \<in> set (currentlyInfected as0)" and P: "?P s"
      and sp: "spreadFrom rnd sr (layer_id l)
            (if layer_id l < length layerAdj then Some (layerAdj ! layer_id l) else None) idx s = Inr s'"
    from idx have i0: "idx < length as0" "state (as0 ! idx) = I"
      by (auto simp: currentlyInfected_def)
    obtain as act q where s: "s = (as, act, q)" by (cases s)
    from sp obtain nbs where fo: "foldE (tryInfect rnd sr (layer_id l) idx) nbs s = Inr s'"
      unfolding s spreadFrom_def by (auto simp: Let_def split: option.splits if_splits)
    from fo show "?P s'"
    proof (rule foldE_inv [where P = ?P])
      show "?P s" by (rule P)
    next
      fix nb t t'
      assume "nb \<in> set nbs" and Pt: "?P t" and ti: "tryInfect rnd sr (layer_id l) idx nb t = Inr t'"
      obtain bs bact bq where t: "t = (bs, bact, bq)" by (cases t)
      obtain bs' bact' bq' where t': "t' = (bs', bact', bq')" by (cases t')
      from ti [unfolded t t'] show "?P t'"
      proof (cases rule: tryInfect_cases)
        case same
        then show ?thesis using Pt skip [of bs bact bq] unfolding t t' by auto
      next
        case infected
        then show ?thesis
          using Pt inf [of bs bact bq idx "fst nb" "snd nb"] i0 unfolding t t' by auto
      qed
    qed
  qed
  then show ?thesis by simp
qed

lemma spreadPhase_induct:
  assumes run: "spreadPhase rnd net sr iter p = Inr (as', act', p')"
    and base: "Q (agents net, [], p)"
    and skip: "\<And>as act q. Q (as, act, q) \<Longrightarrow> length as = length (agents net) \<Longrightarrow> Q (as, act, q + 1)"
    and inf: "\<And>l idx nid w as act q. Q (as, act, q) \<Longrightarrow> length as = length (agents net) \<Longrightarrow>
        l \<in> set (layers net) \<Longrightarrow> fires iter l \<Longrightarrow> idx < length as \<Longrightarrow> nid < length as \<Longrightarrow>
        state (as ! nid) = S \<Longrightarrow> rnd q < sr * w \<Longrightarrow>
        Q (infect (layer_id l) idx nid as, setAdd (layer_id l) act, q + 1)"
  shows "Q (as', act', p') \<and> length as' = length (agents net)"
proof -
  let ?P = "\<lambda>st. Q st \<and> length (fst st) = length (agents net)"
  from run obtain layerAdj where
    fo: "foldE (processLayer rnd sr iter layerAdj) (layers net) (agents net, [], p) = Inr (as', act', p')"
    unfolding spreadPhase_def by (auto simp: bindE_def split: sum.splits)
  have "?P (as', act', p')"
    using fo
  proof (rule foldE_inv [where P = ?P])
    show "?P (agents net, [], p)" using base by simp
  next
    fix l s s'
    assume l: "l \<in> set (layers net)" and P: "?P s"
      and pl: "processLayer rnd sr iter layerAdj l s = Inr s'"
    obtain as0 act0 q0 where s: "s = (as0, act0, q0)" by (cases s)
    obtain as1 act1 q1 where s': "s' = (as1, act1, q1)" by (cases s')
    show "?P s'"
    proof (cases "fires iter l")
      case False
      then show ?thesis using pl P by (simp add: processLayer_def)
    next
      case True
      then have fl: "fireLayer rnd sr layerAdj l (as0, act0, q0) = Inr (as1, act1, q1)"
        using pl by (simp add: processLayer_def s s')
      have len0: "length as0 = length (agents net)" using P s by simp
      have "Q (as1, act1, q1) \<and> length as1 = length as0"
        using fl
      proof (rule fireLayer_induct [where Q = Q])
        show "Q (as0, act0, q0)" using P s by simp
      next
        fix as act q
        assume "Q (as, act, q)" "length as = length as0"
        then show "Q (as, act, q + 1)" using skip len0 by simp
      next
        fix idx nid w as act q
        assume "Q (as, act, q)" "length as = length as0" "idx < length as0"
          "state (as0 ! idx) = I" "nid < length as" "state (as ! nid) = S" "rnd q < sr * w"
        then show "Q (infect (layer_id l) idx nid as, setAdd (layer_id l) act, q + 1)"
          using inf [of as act q l idx nid w] len0 l True by simp
      qed
      then show ?thesis using len0 s' by simp
    qed
  qed
  then show ?thesis by simp
qed

lemma recovery_induct:
  assumes run: "recovery rnd rr as0 p0 = (as', p')"
    and base: "Q (as0, p0)"
    and skip: "\<And>as q. Q (as, q) \<Longrightarrow> length as = length as0 \<Longrightarrow> Q (as, q + 1)"
    and rec: "\<And>i as q. Q (as, q) \<Longrightarrow> length as = length as0 \<Longrightarrow> i < length as \<Longrightarrow>
        state (as ! i) = I \<Longrightarrow> rnd q < rr \<Longrightarrow> Q (as[i := (as ! i)\<lparr>state := R\<rparr>], q + 1)"
  shows "Q (as', p') \<and> length as' = length as0"
proof -
  let ?P = "\<lambda>st. Q st \<and> length (fst st) = length as0"
  have "?P (fold (recoverAgent rnd rr) [0..<length as0] (as0, p0))"
  proof (rule fold_inv [where P = ?P])
    show "?P (as0, p0)" using base by simp
  next
    fix i s
    assume i: "i \<in> set [0..<length as0]" and P: "?P s"
    obtain as q where s: "s = (as, q)" by (cases s)
    show "?P (recoverAgent rnd rr i s)"
      using P i skip [of as q] rec [of as q i]
      unfolding s recoverAgent_def by auto
  qed
  then show ?thesis using run by (simp add: recovery_def)
qed

lemma simulateStep_phases:
  assumes "simulateStep rnd net sr rr iter p = Inr (net', act, p')"
  shows "\<exists>mid p1. spreadPhase rnd net sr iter p = Inr (mid, act, p1)
           \<and> recovery rnd rr mid p1 = (agents net', p') \<and> net' = net\<lparr>agents := agents net'\<rparr>"
  using assms
  by (auto simp: simulateStep_def bindE_def Let_def split: sum.splits prod.splits)

subsection \<open>Agent states only move forward\<close>

lemma spreadPhase_spreadOnly:
  assumes "spreadPhase rnd net sr iter p = Inr (as', act', p')"
  shows "list_all2 spreadOnly (agents net) as'"
proof -
  let ?Q = "\<lambda>st :: stepState. list_all2 spreadOnly (agents net) (fst st)"
  have "?Q (as', act', p') \<and> length as' = length (agents net)"
    using assms
  proof (rule spreadPhase_induct [where Q = ?Q])
    show "?Q (agents net, [], p)"
      by (simp add: list_all2_conv_all_nth spreadOnly_def)
  next
    fix l idx nid w as act q
    assume "?Q (as, act, q)" "idx < length as" "nid < length as" "state (as ! nid) = S"
    then show "?Q (infect (layer_id l) idx nid as, setAdd (layer_id l) act, q + 1)"
      by (auto simp: list_all2_conv_all_nth spreadOnly_def state_infect)
  qed simp
  then show ?thesis by simp
qed

lemma recovery_recoverOnly:
  assumes "recovery rnd rr as0 p0 = (as', p')"
  shows "list_all2 recoverOnly as0 as'"
proof -
  let ?Q = "\<lambda>st :: SimAgent list \<times> nat. list_all2 recoverOnly as0 (fst st)"
  have "?Q (as', p') \<and> length as' = length as0"
    using assms
  proof (rule recovery_induct [where Q = ?Q])
    show "?Q (as0, p0)"
      by (simp add: list_all2_conv_all_nth recoverOnly_def)
  next
    fix i as q
    assume "?Q (as, q)" "i < length as" "state (as ! i) = I"
    then show "?Q (as[i := (as ! i)\<lparr>state := R\<rparr>], q + 1)"
      by (auto simp: list_all2_conv_all_nth recoverOnly_def nth_list_update)
  qed simp
  then show ?thesis by simp
qed

lemma neverBack_refl: "list_all2 neverBack as as"
  by (simp add: list_all2_conv_all_nth neverBack_def split: AgentState.splits)

lemma neverBack_trans1: "neverBack a b \<Longrightarrow> neverBack b c \<Longrightarrow> neverBack a c"
  by (cases "state a"; cases "state b"; cases "state c") (simp_all add: neverBack_def)

lemma neverBack_trans:
  "list_all2 neverBack as bs \<Longrightarrow> list_all2 neverBack bs cs \<Longrightarrow> list_all2 neverBack as cs"
  by (rule list_all2_trans [where ?P1.0 = neverBack and ?P2.0 = neverBack])
     (rule neverBack_trans1)

lemma phases_neverBack1: "spreadOnly a b \<Longrightarrow> recoverOnly b c \<Longrightarrow> neverBack a c"
  by (cases "state a"; cases "state b"; cases "state c")
     (simp_all add: neverBack_def spreadOnly_def recoverOnly_def)

lemma phases_neverBack:
  "list_all2 spreadOnly as bs \<Longrightarrow> list_all2 recoverOnly bs cs \<Longrightarrow> list_all2 neverBack as cs"
  by (rule list_all2_trans [where ?P1.0 = spreadOnly and ?P2.0 = recoverOnly])
     (rule phases_neverBack1)

lemma simulateStep_neverBack:
  assumes "simulateStep rnd net sr rr iter p = Inr (net', act, p')"
  shows "list_all2 neverBack (agents net) (agents net')"
proof -
  from simulateStep_phases [OF assms] obtain mid p1
    where "spreadPhase rnd net sr iter p = Inr (mid, act, p1)"
      and "recovery rnd rr mid p1 = (agents net', p')" by blast
  then show ?thesis
    using spreadPhase_spreadOnly recovery_recoverOnly phases_neverBack by blast
qed

lemma run_steps_neverBack:
  "list_all isStep ops \<Longrightarrow> run rnd ops (net, acts, p) = Some (Inr (net', acts', p')) \<Longrightarrow>
   list_all2 neverBack (agents net) (agents net')"
proof (induction ops arbitrary: net acts p)
  case Nil
  then show ?case by (simp add: neverBack_refl)
next
  case (Cons op ops)
  from Cons.prems(1) obtain sr rr iter where op: "op = Step sr rr iter"
    by (cases op) auto
  from Cons.prems(2) obtain net1 act1 p1
    where st: "simulateStep rnd net sr rr iter p = Inr (net1, act1, p1)"
      and rest: "run rnd ops (net1, acts @ [act1], p1) = Some (Inr (net', acts', p'))"
    unfolding op by (auto simp: bindE_def split: sum.splits)
  from Cons.IH [OF _ rest] Cons.prems(1) have "list_all2 neverBack (agents net1) (agents net')"
    by simp
  with simulateStep_neverBack [OF st] show ?case
    by (rule neverBack_trans)
qed

subsection \<open>A step on a well-formed network returns\<close>

lemma addEdge_total:
  assumes "rowsInRange n adj" "source e < n" "target e < n"
  shows "\<exists>adj'. addEdge e adj = Inr adj' \<and> rowsInRange n adj'"
proof -
  let ?row = "AList.update (target e) (weight e) (adj ! source e)"
  have old: "\<forall>k \<in> set (map fst (adj ! source e)). k < n"
    using assms(1,2) unfolding rowsInRange_def by (metis nth_mem)
  have "\<forall>k \<in> set (map fst ?row). k < n"
    using old assms(3) by (auto simp: update_keys)
  moreover have "set (adj[source e := ?row]) \<subseteq> insert ?row (set adj)"
    by (rule set_update_subset_insert)
  ultimately have "rowsInRange n (adj[source e := ?row])"
    using assms(1) unfolding rowsInRange_def by (auto simp del: set_map)
  then show ?thesis
    using assms(1,2) by (simp add: addEdge_def rowsInRange_def)
qed

lemma layerAdjOf_total:
  assumes "edgesInRange n (edges l)"
  shows "\<exists>adj. layerAdjOf n l = Inr adj \<and> rowsInRange n adj"
  unfolding layerAdjOf_def
proof (rule foldE_total [where P = "rowsInRange n"])
  show "rowsInRange n (replicate n [])" by (simp add: rowsInRange_def)
next
  fix e adj
  assume "e \<in> set (edges l)" "rowsInRange n adj"
  then show "\<exists>adj'. addEdge e adj = Inr adj' \<and> rowsInRange n adj'"
    using assms by (intro addEdge_total) (auto simp: edgesInRange_def)
qed

lemma buildLayerAdj_acc:
  assumes "\<forall>l \<in> set ls. edgesInRange n (edges l)" "\<forall>adj \<in> set acc. rowsInRange n adj"
  shows "\<exists>la. foldE (\<lambda>layer acc. bindE (layerAdjOf n layer) (\<lambda>adj. Inr (acc @ [adj]))) ls acc = Inr la
           \<and> length la = length acc + length ls \<and> (\<forall>adj \<in> set la. rowsInRange n adj)"
  using assms
proof (induction ls arbitrary: acc)
  case Nil
  then show ?case by simp
next
  case (Cons l ls)
  from Cons.prems(1) layerAdjOf_total [of n l] obtain adj
    where adj: "layerAdjOf n l = Inr adj" "rowsInRange n adj" by auto
  have "\<forall>a \<in> set (acc @ [adj]). rowsInRange n a" using Cons.prems(2) adj(2) by auto
  from Cons.IH [OF _ this] Cons.prems(1) obtain la where
    "foldE (\<lambda>layer acc. bindE (layerAdjOf n layer) (\<lambda>adj. Inr (acc @ [adj]))) ls (acc @ [adj]) = Inr la"
    "length la = length (acc @ [adj]) + length ls" "\<forall>adj \<in> set la. rowsInRange n adj"
    by auto
  then show ?case using adj(1) by (simp add: bindE_def)
qed

lemma buildLayerAdj_total:
  assumes "\<forall>l \<in> set ls. edgesInRange n (edges l)"
  shows "\<exists>la. buildLayerAdj n ls = Inr la \<and> length la = length ls
           \<and> (\<forall>adj \<in> set la. rowsInRange n adj)"
  using buildLayerAdj_acc [OF assms, of "[]"] by (simp add: buildLayerAdj_def)

lemma sameIds_infect:
  assumes "sameIds as0 as" "nid < length as" "idx < length as"
  shows "sameIds as0 (infect lid idx nid as)"
proof -
  have "map agent_id (infect lid idx nid as) = map agent_id as"
    using assms(2,3) by (intro nth_equalityI) (simp_all add: agent_id_infect)
  then show ?thesis using assms(1) by (simp add: sameIds_def)
qed

lemma sameIds_length: "sameIds as0 as \<Longrightarrow> length as = length as0"
  unfolding sameIds_def by (metis length_map)

lemma sameIds_nth: "sameIds as0 as \<Longrightarrow> i < length as0 \<Longrightarrow> agent_id (as ! i) = agent_id (as0 ! i)"
  unfolding sameIds_def by (metis length_map nth_map)

lemma spreadPhase_total:
  assumes "wfNetwork net"
  shows "\<exists>st. spreadPhase rnd net sr iter p = Inr st"
proof -
  let ?n = "length (agents net)"
  let ?P = "\<lambda>st :: stepState. sameIds (agents net) (fst st)"
  from assms have lays: "\<forall>l \<in> set (layers net). edgesInRange ?n (edges l)"
    and lids: "\<forall>l \<in> set (layers net). layer_id l < length (layers net)"
    and aids: "\<forall>i < ?n. agent_id (agents net ! i) < ?n"
    by (auto simp: wfNetwork_def)
  from buildLayerAdj_total [OF lays] obtain la
    where la: "buildLayerAdj ?n (layers net) = Inr la" "length la = length (layers net)"
      "\<forall>adj \<in> set la. rowsInRange ?n adj" by blast
  have "\<exists>st. foldE (processLayer rnd sr iter la) (layers net) (agents net, [], p) = Inr st \<and> ?P st"
  proof (rule foldE_total [where P = ?P])
    show "?P (agents net, [], p)" by (simp add: sameIds_def)
  next
    fix l s
    assume l: "l \<in> set (layers net)" and P: "?P s"
    obtain as0 act0 q0 where s: "s = (as0, act0, q0)" by (cases s)
    from l lids la(2) have lid: "layer_id l < length la" by simp
    then have rows: "rowsInRange ?n (la ! layer_id l)" using la(3) by simp
    have "\<exists>s'. fireLayer rnd sr la l s = Inr s' \<and> ?P s'"
      unfolding fireLayer_def s prod.case
    proof (rule foldE_total [where P = ?P])
      show "?P (as0, act0, q0)" using P s by simp
    next
      fix idx t
      assume idx: "idx \<in> set (currentlyInfected as0)" and Pt: "?P t"
      obtain as act q where t: "t = (as, act, q)" by (cases t)
      have len0: "length as0 = ?n" using P s sameIds_length by fastforce
      have len: "length as = ?n" using Pt t sameIds_length by fastforce
      from idx len0 have i: "idx < ?n" by (simp add: currentlyInfected_def)
      have aid: "agent_id (as ! idx) < length (la ! layer_id l)"
        using sameIds_nth [of "agents net" as idx] Pt t i aids rows
        by (simp add: rowsInRange_def)
      have "\<exists>t'. foldE (tryInfect rnd sr (layer_id l) idx) (la ! layer_id l ! agent_id (as ! idx)) t
                = Inr t' \<and> ?P t'"
      proof (rule foldE_total [where P = ?P])
        show "?P t" by (rule Pt)
      next
        fix nb u
        assume nb: "nb \<in> set (la ! layer_id l ! agent_id (as ! idx))" and Pu: "?P u"
        obtain bs bact bq where u: "u = (bs, bact, bq)" by (cases u)
        have lenb: "length bs = ?n" using Pu u sameIds_length by fastforce
        have "la ! layer_id l ! agent_id (as ! idx) \<in> set (la ! layer_id l)"
          using aid by simp
        with rows nb have "fst nb < ?n" by (auto simp: rowsInRange_def)
        then show "\<exists>u'. tryInfect rnd sr (layer_id l) idx nb u = Inr u' \<and> ?P u'"
          using Pu lenb i sameIds_infect [of "agents net" bs "fst nb" idx "layer_id l"]
          unfolding u by (cases nb) (simp add: tryInfect_def)
      qed
      then show "\<exists>t'. spreadFrom rnd sr (layer_id l)
            (if layer_id l < length la then Some (la ! layer_id l) else None) idx t = Inr t' \<and> ?P t'"
        using lid aid unfolding t by (simp add: spreadFrom_def Let_def)
    qed
    then show "\<exists>s'. processLayer rnd sr iter la l s = Inr s' \<and> ?P s'"
      using P by (cases "fires iter l") (auto simp: processLayer_def)
  qed
  then show ?thesis using la(1) by (auto simp: spreadPhase_def bindE_def)
qed


lemma spreadPhase_sameIds:
  assumes "spreadPhase rnd net sr iter p = Inr (as', act', p')"
  shows "sameIds (agents net) as'"
proof -
  let ?Q = "\<lambda>st :: stepState. sameIds (agents net) (fst st)"
  have "?Q (as', act', p') \<and> length as' = length (agents net)"
    using assms
  proof (rule spreadPhase_induct [where Q = ?Q])
    show "?Q (agents net, [], p)" by (simp add: sameIds_def)
  next
    fix l idx nid w as act q
    assume "?Q (as, act, q)" "idx < length as" "nid < length as"
    then show "?Q (infect (layer_id l) idx nid as, setAdd (layer_id l) act, q + 1)"
      by (simp add: sameIds_infect)
  qed simp
  then show ?thesis by simp
qed

lemma recovery_sameIds:
  assumes "recovery rnd rr as0 p0 = (as', p')"
  shows "sameIds as0 as'"
proof -
  let ?Q = "\<lambda>st :: SimAgent list \<times> nat. sameIds as0 (fst st)"
  have "?Q (as', p') \<and> length as' = length as0"
    using assms
  proof (rule recovery_induct [where Q = ?Q])
    show "?Q (as0, p0)" by (simp add: sameIds_def)
  next
    fix i as q
    assume "?Q (as, q)" "i < length as"
    then show "?Q (as[i := (as ! i)\<lparr>state := R\<rparr>], q + 1)"
      by (simp add: sameIds_def map_update) (metis list_update_id map_update)
  qed simp
  then show ?thesis by simp
qed

lemma simulateStep_wf:
  assumes "simulateStep rnd net sr rr iter p = Inr (net', act, p')" "wfNetwork net"
  shows "wfNetwork net' \<and> layers net' = layers net \<and> sameIds (agents net) (agents net')"
proof -
  from simulateStep_phases [OF assms(1)] obtain mid p1
    where sp: "spreadPhase rnd net sr iter p = Inr (mid, act, p1)"
      and re: "recovery rnd rr mid p1 = (agents net', p')"
      and net': "net' = net\<lparr>agents := agents net'\<rparr>" by blast
  from spreadPhase_sameIds [OF sp] recovery_sameIds [OF re]
  have ids: "sameIds (agents net) (agents net')" by (simp add: sameIds_def)
  have lay: "layers net' = layers net" by (subst net') simp
  have "set (map agent_id (agents net')) = set (map agent_id (agents net))"
    using ids by (simp add: sameIds_def)
  then have "\<forall>a \<in> set (agents net'). agent_id a < length (agents net')"
    using assms(2) sameIds_length [OF ids] unfolding wfNetwork_def
    by (metis (no_types, lifting) image_iff list.set_map)
  then show ?thesis
    using assms(2) lay ids sameIds_length [OF ids] by (simp add: wfNetwork_def)
qed

lemma simulateStep_total:
  assumes "wfNetwork net"
  shows "\<exists>net' act p'. simulateStep rnd net sr rr iter p = Inr (net', act, p')"
proof -
  from spreadPhase_total [OF assms] obtain as act p1
    where "spreadPhase rnd net sr iter p = Inr (as, act, p1)" by (metis prod_cases3)
  then show ?thesis
    by (cases "recovery rnd rr as p1") (simp add: simulateStep_def bindE_def)
qed

lemma run_steps_total:
  "wfNetwork net \<Longrightarrow> list_all isStep ops \<Longrightarrow>
   \<exists>net' acts' p'. run rnd ops (net, acts, p) = Some (Inr (net', acts', p')) \<and> wfNetwork net'"
proof (induction ops arbitrary: net acts p)
  case Nil
  then show ?case by simp
next
  case (Cons op ops)
  from Cons.prems(2) obtain sr rr iter where op: "op = Step sr rr iter"
    by (cases op) auto
  from simulateStep_total [OF Cons.prems(1)] obtain net1 act1 p1
    where st: "simulateStep rnd net sr rr iter p = Inr (net1, act1, p1)" by blast
  from simulateStep_wf [OF st Cons.prems(1)] have wf1: "wfNetwork net1" by simp
  from Cons.IH [OF wf1, of "acts @ [act1]" p1] Cons.prems(2)
  show ?case unfolding op using st by (simp add: bindE_def)
qed

subsection \<open>A built network is well-formed\<close>

lemma pushPair_inRange:
  "edgesInRange n es \<Longrightarrow> i < n \<Longrightarrow> j < n \<Longrightarrow> edgesInRange n (pushPair i j w es)"
  by (auto simp: edgesInRange_def pushPair_def)

lemma buildRandomLayer_inRange: "edgesInRange n (fst (buildRandomLayer rnd n c p))"
  unfolding buildRandomLayer_def
proof (rule fold_inv [where P = "\<lambda>st. edgesInRange n (fst st)"])
  show "edgesInRange n (fst ([], p))" by (simp add: edgesInRange_def)
next
  fix i and s :: "SimEdge list \<times> nat"
  assume i: "i \<in> set [0..<n]" and ok: "edgesInRange n (fst s)"
  show "edgesInRange n (fst (fold (randomPair rnd c i) [i + 1..<n] s))"
  proof (rule fold_inv [where P = "\<lambda>st. edgesInRange n (fst st)"])
    show "edgesInRange n (fst s)" by (rule ok)
  next
    fix j and t :: "SimEdge list \<times> nat"
    assume "j \<in> set [i + 1..<n]" "edgesInRange n (fst t)"
    then show "edgesInRange n (fst (randomPair rnd c i j t))"
      using i by (cases t) (simp add: randomPair_def pushPair_inRange)
  qed
qed

lemma edgesOfAdj_inRange: "edgesInRange n (fst (edgesOfAdj rnd n adj p))"
  unfolding edgesOfAdj_def
proof (rule fold_inv [where P = "\<lambda>st. edgesInRange n (fst st)"])
  show "edgesInRange n (fst ([], p))" by (simp add: edgesInRange_def)
next
  fix i and s :: "SimEdge list \<times> nat"
  assume i: "i \<in> set [0..<n]" and ok: "edgesInRange n (fst s)"
  show "edgesInRange n (fst (fold (adjPair rnd adj i) [i + 1..<n] s))"
  proof (rule fold_inv [where P = "\<lambda>st. edgesInRange n (fst st)"])
    show "edgesInRange n (fst s)" by (rule ok)
  next
    fix j and t :: "SimEdge list \<times> nat"
    assume "j \<in> set [i + 1..<n]" "edgesInRange n (fst t)"
    then show "edgesInRange n (fst (adjPair rnd adj i j t))"
      using i by (cases t) (simp add: adjPair_def pushPair_inRange)
  qed
qed

lemma buildLayer_result:
  assumes "buildLayer rnd lid n cfg p = Inr (l, p')"
  shows "layer_id l = lid \<and> frequency l = cfg_frequency cfg \<and> edgesInRange n (edges l)"
proof (cases "cfg_topology cfg")
  case random
  then show ?thesis
    using assms buildRandomLayer_inRange [of n rnd "cfg_connectivity cfg" p]
    by (cases "buildRandomLayer rnd n (cfg_connectivity cfg) p")
       (auto simp: buildLayer_def bindE_def)
next
  case smallworld
  with assms obtain es where sw: "buildSmallWorldLayer rnd n (cfg_connectivity cfg) p = Inr (es, p')"
    and l: "l = \<lparr>layer_id = lid, edges = es, connectivity = cfg_connectivity cfg,
                   frequency = cfg_frequency cfg\<rparr>"
    by (auto simp: buildLayer_def bindE_def split: sum.splits)
  from smallworld_result [OF sw] obtain adj p1 where "edgesOfAdj rnd n adj p1 = (es, p')"
    by blast
  with edgesOfAdj_inRange [of n rnd adj p1] show ?thesis using l by simp
next
  case scalefree
  have "edgesInRange n (fst (buildScaleFreeLayer rnd n (cfg_connectivity cfg) p))"
    by (simp add: buildScaleFreeLayer_def Let_def edgesOfAdj_inRange split: prod.splits)
  then show ?thesis
    using assms scalefree
    by (cases "buildScaleFreeLayer rnd n (cfg_connectivity cfg) p")
       (auto simp: buildLayer_def bindE_def)
qed

lemma buildLayer_total:
  assumes "unit_draws rnd"
  shows "\<exists>l p'. buildLayer rnd lid n cfg p = Inr (l, p')"
proof (cases "cfg_topology cfg")
  case smallworld
  with smallworld_returns [OF assms, of n "cfg_connectivity cfg" p] show ?thesis
    by (auto simp: buildLayer_def bindE_def)
next
  case random
  then show ?thesis
    by (cases "buildRandomLayer rnd n (cfg_connectivity cfg) p")
       (simp add: buildLayer_def bindE_def)
next
  case scalefree
  then show ?thesis
    by (cases "buildScaleFreeLayer rnd n (cfg_connectivity cfg) p")
       (simp add: buildLayer_def bindE_def)
qed

lemma layersOK_snoc:
  "layersOK n ls \<Longrightarrow> layer_id l = length ls \<Longrightarrow> edgesInRange n (edges l) \<Longrightarrow> layersOK n (ls @ [l])"
  by (auto simp: layersOK_def nth_append less_Suc_eq)

lemma buildLayers_acc:
  assumes "foldE (\<lambda>(idx, cfg) (ls, p1).
              bindE (buildLayer rnd idx n cfg p1) (\<lambda>(l, p2). Inr (ls @ [l], p2)))
            (enumerate (length acc) cfgs) (acc, p) = Inr (ls', p')"
    and "layersOK n acc"
  shows "layersOK n ls' \<and> length ls' = length acc + length cfgs"
  using assms
proof (induction cfgs arbitrary: acc p)
  case Nil
  then show ?case by simp
next
  case (Cons cfg cfgs)
  from Cons.prems(1) obtain l p1 where bl: "buildLayer rnd (length acc) n cfg p = Inr (l, p1)"
    and rest: "foldE (\<lambda>(idx, cfg) (ls, p1).
              bindE (buildLayer rnd idx n cfg p1) (\<lambda>(l, p2). Inr (ls @ [l], p2)))
            (enumerate (length (acc @ [l])) cfgs) (acc @ [l], p1) = Inr (ls', p')"
    by (auto simp: bindE_def split: sum.splits)
  from buildLayer_result [OF bl] Cons.prems(2) have "layersOK n (acc @ [l])"
    by (intro layersOK_snoc) auto
  from Cons.IH [OF rest this] show ?case by simp
qed

lemma buildLayers_total_acc:
  assumes "unit_draws rnd"
  shows "\<exists>r. foldE (\<lambda>(idx, cfg) (ls, p1).
              bindE (buildLayer rnd idx n cfg p1) (\<lambda>(l, p2). Inr (ls @ [l], p2)))
            (enumerate k cfgs) (acc, p) = Inr r"
proof (induction cfgs arbitrary: k acc p)
  case Nil
  then show ?case by simp
next
  case (Cons cfg cfgs)
  from buildLayer_total [OF assms] obtain l p1 where "buildLayer rnd k n cfg p = Inr (l, p1)"
    by blast
  then show ?case using Cons.IH [of "Suc k" "acc @ [l]" p1] by (simp add: bindE_def)
qed

lemma buildNetwork_wf:
  assumes "buildNetwork rnd n cfgs p = Inr (net, p')"
  shows "wfNetwork net \<and> agents net = map (newAgent (length cfgs)) [0..<n]
         \<and> length (layers net) = length cfgs"
proof -
  from assms obtain ls where bl: "buildLayers rnd n cfgs p = Inr (ls, p')"
    and net: "net = \<lparr>agents = map (newAgent (length cfgs)) [0..<n], layers = ls\<rparr>"
    by (auto simp: buildNetwork_def Let_def bindE_def split: sum.splits)
  have "layersOK n ls \<and> length ls = length [] + length cfgs"
    using bl buildLayers_acc [of rnd n "[]" cfgs p ls p'] unfolding buildLayers_def
    by (simp add: layersOK_def)
  then have "\<forall>l \<in> set ls. layer_id l < length ls \<and> edgesInRange n (edges l)"
    by (auto simp: layersOK_def in_set_conv_nth)
  then show ?thesis
    using net \<open>layersOK n ls \<and> length ls = length [] + length cfgs\<close>
    by (auto simp: wfNetwork_def newAgent_def)
qed

lemma buildNetwork_total:
  assumes "unit_draws rnd"
  shows "\<exists>net p'. buildNetwork rnd n cfgs p = Inr (net, p')"
proof -
  from buildLayers_total_acc [OF assms, of n 0 cfgs "[]" p] obtain ls p'
    where "buildLayers rnd n cfgs p = Inr (ls, p')"
    unfolding buildLayers_def by fastforce
  then show ?thesis by (simp add: buildNetwork_def Let_def bindE_def)
qed

section \<open>The state machine of an agent\<close>

text \<open>
  C4. Whenever \<^verbatim>\<open>simulateStep\<close> returns, every agent was moved by the spreading
  loops only from Susceptible to Infected, if at all, and then by the recovery loop
  only from Infected to Recovered, if at all: no single transition skips from
  Susceptible to Recovered. Over any number of \<^verbatim>\<open>simulateStep\<close> calls, with any
  parameters and draws, an agent that was Recovered stays Recovered and an agent that
  was Infected is never Susceptible again. On a network that \<^verbatim>\<open>buildNetwork\<close> built,
  every such sequence of calls returns.
\<close>

theorem state_machine_monotone:
  "(\<forall>net' act p'. simulateStep rnd net sr rr iter p = Inr (net', act, p') \<longrightarrow>
      (\<exists>mid p1. spreadPhase rnd net sr iter p = Inr (mid, act, p1)
         \<and> recovery rnd rr mid p1 = (agents net', p')
         \<and> list_all2 spreadOnly (agents net) mid \<and> list_all2 recoverOnly mid (agents net')))
   \<and> (\<forall>net' acts' p'. list_all isStep ops
         \<and> run rnd ops (net, acts, p) = Some (Inr (net', acts', p')) \<longrightarrow>
       list_all2 neverBack (agents net) (agents net'))
   \<and> (\<forall>n cfgs p0. buildNetwork rnd n cfgs p0 = Inr (net, p) \<and> list_all isStep ops \<longrightarrow>
        (\<exists>net' acts' p'. run rnd ops (net, acts, p) = Some (Inr (net', acts', p'))))"
proof (intro conjI allI impI)
  fix net' act p'
  assume st: "simulateStep rnd net sr rr iter p = Inr (net', act, p')"
  from simulateStep_phases [OF st] obtain mid p1
    where sp: "spreadPhase rnd net sr iter p = Inr (mid, act, p1)"
      and re: "recovery rnd rr mid p1 = (agents net', p')" by blast
  show "\<exists>mid p1. spreadPhase rnd net sr iter p = Inr (mid, act, p1)
         \<and> recovery rnd rr mid p1 = (agents net', p')
         \<and> list_all2 spreadOnly (agents net) mid \<and> list_all2 recoverOnly mid (agents net')"
    using sp re spreadPhase_spreadOnly [OF sp] recovery_recoverOnly [OF re] by blast
next
  fix net' acts' p'
  assume "list_all isStep ops \<and> run rnd ops (net, acts, p) = Some (Inr (net', acts', p'))"
  then show "list_all2 neverBack (agents net) (agents net')"
    using run_steps_neverBack by blast
next
  fix n cfgs p0
  assume "buildNetwork rnd n cfgs p0 = Inr (net, p) \<and> list_all isStep ops"
  then have "wfNetwork net" "list_all isStep ops"
    using buildNetwork_wf by blast+
  then show "\<exists>net' acts' p'. run rnd ops (net, acts, p) = Some (Inr (net', acts', p'))"
    using run_steps_total by blast
qed

theorem state_machine_monotone_witness:
  "(\<exists>net'. simulateStep (\<lambda>p. 1 / 4) (seededChain 1 1) 1 (1 / 2) 1 0 = Inr (net', [0, 1], 5)
       \<and> list_all isStep [Step 1 (1 / 2) 1]
       \<and> run (\<lambda>p. 1 / 4) [Step 1 (1 / 2) 1] (seededChain 1 1, [], 0) = Some (Inr (net', [[0, 1]], 5))
       \<and> map state (agents (seededChain 1 1)) = [I, S, S]
       \<and> map state (agents net') = [R, R, R]
       \<and> list_all2 neverBack (agents (seededChain 1 1)) (agents net')
       \<and> (\<exists>mid p1. spreadPhase (\<lambda>p. 1 / 4) (seededChain 1 1) 1 1 0 = Inr (mid, [0, 1], p1)
             \<and> recovery (\<lambda>p. 1 / 4) (1 / 2) mid p1 = (agents net', 5)
             \<and> map state mid = [I, I, I]
             \<and> list_all2 spreadOnly (agents (seededChain 1 1)) mid
             \<and> list_all2 recoverOnly mid (agents net')))"
proof -
  let ?as = "[\<lparr>agent_id = 0, state = R, infectedByLayer = None, infectedCount = [1, 0]\<rparr>,
              \<lparr>agent_id = 1, state = R, infectedByLayer = Some 0, infectedCount = [0, 1]\<rparr>,
              \<lparr>agent_id = 2, state = R, infectedByLayer = Some 1, infectedCount = [0, 0]\<rparr>]"
  let ?mid = "[\<lparr>agent_id = 0, state = I, infectedByLayer = None, infectedCount = [1, 0]\<rparr>,
              \<lparr>agent_id = 1, state = I, infectedByLayer = Some 0, infectedCount = [0, 1]\<rparr>,
              \<lparr>agent_id = 2, state = I, infectedByLayer = Some 1, infectedCount = [0, 0]\<rparr>]"
  let ?net' = "(seededChain 1 1)\<lparr>agents := ?as\<rparr>"
  have step: "simulateStep (\<lambda>p. 1 / 4) (seededChain 1 1) 1 (1 / 2) 1 0 = Inr (?net', [0, 1], 5)"
    by code_simp
  have runs: "run (\<lambda>p. 1 / 4) [Step 1 (1 / 2) 1] (seededChain 1 1, [], 0) = Some (Inr (?net', [[0, 1]], 5))"
    by code_simp
  have sp: "spreadPhase (\<lambda>p. 1 / 4) (seededChain 1 1) 1 1 0 = Inr (?mid, [0, 1], 2)"
    by code_simp
  have st0: "map state (agents (seededChain 1 1)) = [I, S, S]"
    by code_simp
  have ops: "list_all isStep [Step 1 (1 / 2) 1]" by simp
  from state_machine_monotone [of "\<lambda>p. 1 / 4" "seededChain 1 1" 1 "1 / 2" 1 0
      "[Step 1 (1 / 2) 1]" "[]"] step runs ops
  have a: "\<exists>mid p1. spreadPhase (\<lambda>p. 1 / 4) (seededChain 1 1) 1 1 0 = Inr (mid, [0, 1], p1)
             \<and> recovery (\<lambda>p. 1 / 4) (1 / 2) mid p1 = (agents ?net', 5)
             \<and> list_all2 spreadOnly (agents (seededChain 1 1)) mid
             \<and> list_all2 recoverOnly mid (agents ?net')"
    and b: "list_all2 neverBack (agents (seededChain 1 1)) (agents ?net')"
    by blast+
  from a sp have "\<exists>mid p1. spreadPhase (\<lambda>p. 1 / 4) (seededChain 1 1) 1 1 0 = Inr (mid, [0, 1], p1)
             \<and> recovery (\<lambda>p. 1 / 4) (1 / 2) mid p1 = (agents ?net', 5)
             \<and> map state mid = [I, I, I]
             \<and> list_all2 spreadOnly (agents (seededChain 1 1)) mid
             \<and> list_all2 recoverOnly mid (agents ?net')"
    by auto
  with step runs ops st0 b show ?thesis
    by (intro exI [of _ ?net']) simp
qed

subsection \<open>Firing and attribution\<close>








lemma recovery_attribution:
  assumes "recovery rnd rr as0 p0 = (as', p')"
  shows "map infectedByLayer as' = map infectedByLayer as0
         \<and> map infectedCount as' = map infectedCount as0"
proof -
  let ?Q = "\<lambda>st :: SimAgent list \<times> nat. map infectedByLayer (fst st) = map infectedByLayer as0
         \<and> map infectedCount (fst st) = map infectedCount as0"
  have "?Q (as', p') \<and> length as' = length as0"
    using assms
  proof (rule recovery_induct [where Q = ?Q])
    fix i as q
    assume "?Q (as, q)" "i < length as"
    then show "?Q (as[i := (as ! i)\<lparr>state := R\<rparr>], q + 1)"
      by (simp add: map_update) (metis list_update_id map_update)
  qed simp_all
  then show ?thesis by simp
qed

subsection \<open>The spreaders of a pass\<close>










subsection \<open>Seeding\<close>

lemma distinct_setAdd: "distinct xs \<Longrightarrow> distinct (setAdd x xs)"
  by (simp add: setAdd_def)

lemma set_setAdd: "set (setAdd x xs) = insert x (set xs)"
  by (auto simp: setAdd_def)

lemma length_setAdd: "length (setAdd x xs) = length xs \<or> length (setAdd x xs) = Suc (length xs)"
  by (simp add: setAdd_def)

text \<open>What the seed loop has chosen when it returns.\<close>

lemma chooseSeeds_result:
  assumes "chooseSeeds rnd n k chosen p = Some r"
  shows "distinct chosen \<longrightarrow>
     distinct (fst r) \<and> p \<le> snd r
     \<and> set (fst r) \<subseteq> set chosen \<union> (\<lambda>j. drawIndex rnd j n) ` {p..<snd r}
     \<and> (if int (length chosen) < k then int (length (fst r)) = k else r = (chosen, p))"
proof (rule chooseSeeds.raw_induct [where P = "\<lambda>rnd n k chosen p r. distinct chosen \<longrightarrow>
     distinct (fst r) \<and> p \<le> snd r
     \<and> set (fst r) \<subseteq> set chosen \<union> (\<lambda>j. drawIndex rnd j n) ` {p..<snd r}
     \<and> (if int (length chosen) < k then int (length (fst r)) = k else r = (chosen, p))",
     OF _ assms])
  fix f :: "rng \<Rightarrow> nat \<Rightarrow> int \<Rightarrow> int list \<Rightarrow> nat \<Rightarrow> (int list \<times> nat) option"
  fix rnd n k chosen p r
  assume IH: "\<And>rnd n k chosen p r. f rnd n k chosen p = Some r \<Longrightarrow> distinct chosen \<longrightarrow>
     distinct (fst r) \<and> p \<le> snd r
     \<and> set (fst r) \<subseteq> set chosen \<union> (\<lambda>j. drawIndex rnd j n) ` {p..<snd r}
     \<and> (if int (length chosen) < k then int (length (fst r)) = k else r = (chosen, p))"
    and body: "(if int (length chosen) < k
        then f rnd n k (setAdd (drawIndex rnd p n) chosen) (p + 1)
        else Some (chosen, p)) = Some r"
  show "distinct chosen \<longrightarrow>
     distinct (fst r) \<and> p \<le> snd r
     \<and> set (fst r) \<subseteq> set chosen \<union> (\<lambda>j. drawIndex rnd j n) ` {p..<snd r}
     \<and> (if int (length chosen) < k then int (length (fst r)) = k else r = (chosen, p))"
  proof (cases "int (length chosen) < k")
    case False
    with body show ?thesis by auto
  next
    case True
    let ?c = "setAdd (drawIndex rnd p n) chosen"
    from True body have call: "f rnd n k ?c (p + 1) = Some r" by simp
    show ?thesis
    proof
      assume d: "distinct chosen"
      then have "distinct ?c" by (rule distinct_setAdd)
      with IH [OF call] have ih: "distinct (fst r)" "p + 1 \<le> snd r"
        "set (fst r) \<subseteq> set ?c \<union> (\<lambda>j. drawIndex rnd j n) ` {p + 1..<snd r}"
        "if int (length ?c) < k then int (length (fst r)) = k else r = (?c, p + 1)"
        by simp_all
      have "{p..<snd r} = insert p {p + 1..<snd r}" using ih(2) by auto
      then have sub: "set (fst r) \<subseteq> set chosen \<union> (\<lambda>j. drawIndex rnd j n) ` {p..<snd r}"
        using ih(3) by (auto simp: set_setAdd)
      have len: "int (length (fst r)) = k"
      proof (cases "int (length ?c) < k")
        case True
        with ih(4) show ?thesis by simp
      next
        case False
        with ih(4) have "fst r = ?c" by simp
        with False True length_setAdd [of "drawIndex rnd p n" chosen] show ?thesis by auto
      qed
      show "distinct (fst r) \<and> p \<le> snd r
        \<and> set (fst r) \<subseteq> set chosen \<union> (\<lambda>j. drawIndex rnd j n) ` {p..<snd r}
        \<and> (if int (length chosen) < k then int (length (fst r)) = k else r = (chosen, p))"
        using ih(1,2) sub len True by simp
    qed
  qed
qed

text \<open>The seed loop returns once enough distinct ids are among the draws to come.\<close>

lemma chooseSeeds_returns:
  "distinct chosen \<Longrightarrow>
   k \<le> int (card (set chosen \<union> (\<lambda>j. drawIndex rnd j n) ` {p..<q})) \<Longrightarrow>
   \<exists>r. chooseSeeds rnd n k chosen p = Some r"
proof (induction "q - p" arbitrary: p chosen)
  case 0
  then have "{p..<q} = {}" by simp
  with 0 have "\<not> int (length chosen) < k" by (simp add: distinct_card)
  then show ?case by (subst chooseSeeds.simps) simp
next
  case (Suc d)
  show ?case
  proof (cases "int (length chosen) < k")
    case False
    then show ?thesis by (subst chooseSeeds.simps) simp
  next
    case True
    let ?c = "setAdd (drawIndex rnd p n) chosen"
    have pq: "p < q" using Suc.hyps(2) by simp
    then have "{p..<q} = insert p {p + 1..<q}" by auto
    then have "set chosen \<union> (\<lambda>j. drawIndex rnd j n) ` {p..<q}
        = set ?c \<union> (\<lambda>j. drawIndex rnd j n) ` {p + 1..<q}"
      by (auto simp: set_setAdd)
    with Suc.prems(2) have "k \<le> int (card (set ?c \<union> (\<lambda>j. drawIndex rnd j n) ` {p + 1..<q}))"
      by simp
    moreover have "d = q - (p + 1)" using Suc.hyps(2) by simp
    ultimately have "\<exists>r. chooseSeeds rnd n k ?c (p + 1) = Some r"
      using Suc.hyps(1) [of "p + 1" ?c] distinct_setAdd [OF Suc.prems(1)] by blast
    then show ?thesis using True by (subst chooseSeeds.simps) simp
  qed
qed

lemma markSeeds_result:
  "foldE markSeed chosen as = Inr as' \<Longrightarrow>
   length as' = length as \<and> (\<forall>c \<in> set chosen. 0 \<le> c \<and> nat c < length as)
   \<and> (\<forall>i < length as. as' ! i = (if int i \<in> set chosen then (as ! i)\<lparr>state := I\<rparr> else as ! i))"
proof (induction chosen arbitrary: as)
  case Nil
  then show ?case by simp
next
  case (Cons c cs)
  let ?as1 = "as[nat c := (as ! nat c)\<lparr>state := I\<rparr>]"
  from Cons.prems obtain as1 where m: "markSeed c as = Inr as1"
    and rest1: "foldE markSeed cs as1 = Inr as'"
    by (auto simp: bindE_def split: sum.splits)
  from m have c: "0 \<le> c" "nat c < length as" and as1: "as1 = ?as1"
    by (auto simp: markSeed_def split: if_splits)
  from rest1 as1 have rest: "foldE markSeed cs ?as1 = Inr as'" by simp
  from Cons.IH [OF rest] have len: "length as' = length as"
    and rng: "\<forall>c \<in> set cs. 0 \<le> c \<and> nat c < length as"
    and nth: "\<And>i. i < length as \<Longrightarrow>
        as' ! i = (if int i \<in> set cs then (?as1 ! i)\<lparr>state := I\<rparr> else ?as1 ! i)"
    by simp_all
  have "as' ! i = (if int i \<in> set (c # cs) then (as ! i)\<lparr>state := I\<rparr> else as ! i)"
    if i: "i < length as" for i
  proof (cases "i = nat c")
    case True
    then show ?thesis using nth [OF i] c by simp
  next
    case False
    then have "int i \<noteq> c" using c by auto
    then show ?thesis using nth [OF i] False by simp
  qed
  then show ?case using len rng c by simp
qed

lemma markSeeds_total:
  assumes "\<forall>c \<in> set chosen. 0 \<le> c \<and> nat c < length as"
  shows "\<exists>as'. foldE markSeed chosen as = Inr as'"
proof -
  have "\<exists>as'. foldE markSeed chosen as = Inr as' \<and> length as' = length as"
  proof (rule foldE_total [where P = "\<lambda>bs. length bs = length as"])
    fix c and bs :: "SimAgent list"
    assume "c \<in> set chosen" "length bs = length as"
    then show "\<exists>bs'. markSeed c bs = Inr bs' \<and> length bs' = length as"
      using assms by (simp add: markSeed_def)
  qed simp
  then show ?thesis by blast
qed

lemma seedInfected_result:
  assumes "seedInfected rnd net count p = Some (Inr (net', p'))"
  shows "\<exists>chosen. chooseSeeds rnd (length (agents net)) (min count (int (length (agents net)))) [] p
            = Some (chosen, p')
      \<and> distinct chosen \<and> (\<forall>c \<in> set chosen. 0 \<le> c \<and> nat c < length (agents net))
      \<and> layers net' = layers net \<and> length (agents net') = length (agents net)
      \<and> (\<forall>i < length (agents net). agents net' ! i =
            (resetAgent (length (layers net)) (agents net ! i))
              \<lparr>state := if int i \<in> set chosen then I else S\<rparr>)"
proof -
  let ?as = "map (resetAgent (length (layers net))) (agents net)"
  from assms obtain chosen as' where
    ch: "chooseSeeds rnd (length (agents net)) (min count (int (length (agents net)))) [] p
            = Some (chosen, p')"
    and ms: "foldE markSeed chosen ?as = Inr as'"
    and net': "net' = net\<lparr>agents := as'\<rparr>"
    by (auto simp: seedInfected_def Let_def bindE_def split: option.splits sum.splits)
  from chooseSeeds_result [OF ch] have d: "distinct chosen" by simp
  from markSeeds_result [OF ms] have len: "length as' = length (agents net)"
    and rng: "\<forall>c \<in> set chosen. 0 \<le> c \<and> nat c < length (agents net)"
    and nth: "\<forall>i < length (agents net).
        as' ! i = (if int i \<in> set chosen then (?as ! i)\<lparr>state := I\<rparr> else ?as ! i)"
    by simp_all
  have "agents net' ! i = (resetAgent (length (layers net)) (agents net ! i))
              \<lparr>state := if int i \<in> set chosen then I else S\<rparr>"
    if "i < length (agents net)" for i
    using that nth net' by (simp add: resetAgent_def)
  then show ?thesis
    using ch d rng len net' by (intro exI [of _ chosen]) simp
qed

lemma infected_count:
  assumes "distinct chosen" "\<forall>c \<in> set chosen. 0 \<le> c \<and> nat c < length as"
    and "\<forall>i < length as. state (as ! i) = (if int i \<in> set chosen then I else S)"
  shows "length (filter (\<lambda>a. state a = I) as) = length chosen"
proof -
  have "{i. i < length as \<and> state (as ! i) = I} = nat ` set chosen"
  proof (intro set_eqI iffI)
    fix i assume "i \<in> {i. i < length as \<and> state (as ! i) = I}"
    then have "int i \<in> set chosen" using assms(3) by (auto split: if_splits)
    then show "i \<in> nat ` set chosen" by force
  next
    fix i assume "i \<in> nat ` set chosen"
    then obtain c where c: "c \<in> set chosen" "i = nat c" by auto
    with assms(2) have "i < length as" "int i = c" by auto
    with c(1) assms(3) show "i \<in> {i. i < length as \<and> state (as ! i) = I}" by auto
  qed
  moreover have "inj_on nat (set chosen)"
  proof (rule inj_onI)
    fix x y assume "x \<in> set chosen" "y \<in> set chosen" "nat x = nat y"
    with assms(2) show "x = y" by (metis nat_0_le)
  qed
  ultimately have "card {i. i < length as \<and> state (as ! i) = I} = card (set chosen)"
    by (simp add: card_image)
  then show ?thesis
    using assms(1) by (simp add: length_filter_conv_card distinct_card)
qed

lemma seedInfected_nonpositive:
  assumes "count \<le> 0"
  shows "seedInfected rnd net count p
     = Some (Inr (net\<lparr>agents := map (resetAgent (length (layers net))) (agents net)\<rparr>, p))"
proof -
  have "chooseSeeds rnd (length (agents net)) (min count (int (length (agents net)))) [] p
      = Some ([], p)"
    using assms by (subst chooseSeeds.simps) simp
  then show ?thesis by (simp add: seedInfected_def Let_def bindE_def)
qed

lemma seedInfected_clamped:
  assumes "seedInfected rnd net count p = Some (Inr (net', p'))"
  shows "seededState net (max 0 count) net'"
proof -
  let ?n = "length (agents net)"
  from seedInfected_result [OF assms(1)] obtain chosen where
    ch: "chooseSeeds rnd ?n (min count (int ?n)) [] p = Some (chosen, p')"
    and d: "distinct chosen" and rng: "\<forall>c \<in> set chosen. 0 \<le> c \<and> nat c < ?n"
    and lay: "layers net' = layers net" and len: "length (agents net') = ?n"
    and nth: "\<forall>i < ?n. agents net' ! i =
            (resetAgent (length (layers net)) (agents net ! i))
              \<lparr>state := if int i \<in> set chosen then I else S\<rparr>"
    by blast
  have k: "int (length chosen) = min (max 0 count) (int ?n)"
    using chooseSeeds_result [OF ch] by (auto split: if_splits)
  have st: "\<forall>i < length (agents net'). state (agents net' ! i) = (if int i \<in> set chosen then I else S)"
    using nth len by simp
  have "length (filter (\<lambda>a. state a = I) (agents net')) = length chosen"
    using infected_count [OF d _ st] rng len by simp
  moreover have "map agent_id (agents net') = map agent_id (agents net)"
    using nth len by (intro nth_equalityI) (simp_all add: resetAgent_def)
  moreover have "list_all (resetSeeded (length (layers net))) (agents net')"
    using nth len by (simp add: list_all_length resetSeeded_def resetAgent_def)
  ultimately show ?thesis
    using lay k by (simp add: seededState_def)
qed

lemma seedInfected_enough:
  assumes "seedInfected rnd net count p = Some r"
  shows "enoughSeeds rnd (length (agents net)) (min count (int (length (agents net)))) p"
proof -
  let ?n = "length (agents net)"
  let ?k = "min count (int ?n)"
  from assms obtain chosen p' where
    ch: "chooseSeeds rnd ?n ?k [] p = Some (chosen, p')"
    by (auto simp: seedInfected_def Let_def split: option.splits)
  from chooseSeeds_result [OF ch] have d: "distinct chosen"
    and sub: "set chosen \<subseteq> (\<lambda>j. drawIndex rnd j ?n) ` {p..<p'}"
    and len: "if 0 < ?k then int (length chosen) = ?k else chosen = []"
    by (auto split: if_splits)
  have "card (set chosen) \<le> card ((\<lambda>j. drawIndex rnd j ?n) ` {p..<p'})"
    using sub by (intro card_mono) auto
  then have "?k \<le> int (card ((\<lambda>j. drawIndex rnd j ?n) ` {p..<p'}))"
    using len d by (auto simp: distinct_card split: if_splits)
  then show ?thesis unfolding enoughSeeds_def by blast
qed

lemma seedInfected_returns:
  assumes "unit_draws rnd"
    and "enoughSeeds rnd (length (agents net)) (min count (int (length (agents net)))) p"
  shows "\<exists>net' p'. seedInfected rnd net count p = Some (Inr (net', p'))"
proof -
  let ?n = "length (agents net)"
  let ?k = "min count (int ?n)"
  let ?as = "map (resetAgent (length (layers net))) (agents net)"
  from assms(2) obtain q where "?k \<le> int (card ((\<lambda>j. drawIndex rnd j ?n) ` {p..<q}))"
    unfolding enoughSeeds_def by blast
  then have "\<exists>r. chooseSeeds rnd ?n ?k [] p = Some r"
    using chooseSeeds_returns [of "[]" ?k rnd ?n p q] by simp
  then obtain chosen p' where ch: "chooseSeeds rnd ?n ?k [] p = Some (chosen, p')"
    by fastforce
  from chooseSeeds_result [OF ch]
  have sub: "set chosen \<subseteq> (\<lambda>j. drawIndex rnd j ?n) ` {p..<p'}"
    and len: "if 0 < ?k then int (length chosen) = ?k else chosen = []"
    by (auto split: if_splits)
  have "\<forall>c \<in> set chosen. 0 \<le> c \<and> nat c < length ?as"
  proof (cases "0 < ?n")
    case True
    show ?thesis
    proof
      fix c assume "c \<in> set chosen"
      with sub obtain j where "c = drawIndex rnd j ?n" by auto
      with drawIndex_range [OF assms(1) True, of j] show "0 \<le> c \<and> nat c < length ?as"
        by (simp add: nat_less_iff)
    qed
  next
    case False
    then have "chosen = []" using len by (auto split: if_splits)
    then show ?thesis by simp
  qed
  from markSeeds_total [OF this] obtain as' where "foldE markSeed chosen ?as = Inr as'"
    by blast
  then show ?thesis
    using ch by (simp add: seedInfected_def Let_def bindE_def)
qed

section \<open>Seeding infects \<open>min count numAgents\<close> agents, and none for a negative count\<close>

text \<open>
  C5, as stated, fails for a negative count: \<^verbatim>\<open>seedInfected(network, -1)\<close> on the
  three agents of \<open>seededChain\<close> resets them and returns with no agent Infected,
  while \<open>min count numAgents\<close> is \<open>-1\<close>.
\<close>

theorem seedInfected_negative_count_counterexample:
  "seedInfected (constDraws 0) (seededChain 1 1) (- 1) 0
     = Some (Inr ((seededChain 1 1)\<lparr>agents := map (newAgent 2) [0, 1, 2]\<rparr>, 0))
   \<and> map state (agents (seededChain 1 1)) = [I, S, S]
   \<and> map state (map (newAgent 2) [0, 1, 2]) = [S, S, S]
   \<and> int (length (filter (\<lambda>a. state a = I) (map (newAgent 2) [0, 1, 2]))) = 0
   \<and> min (- 1) (int (length (agents (seededChain 1 1)))) = - 1
   \<and> \<not> seededState (seededChain 1 1) (- 1) ((seededChain 1 1)\<lparr>agents := map (newAgent 2) [0, 1, 2]\<rparr>)"
  by code_simp

text \<open>
  C5, amended. For every network and every integer count, whenever \<^verbatim>\<open>seedInfected\<close> returns,
  every agent has \<^verbatim>\<open>infectedByLayer\<close> \<^verbatim>\<open>null\<close> and \<^verbatim>\<open>infectedCount\<close> zero-filled to
  the current number of layers, exactly \<open>min (max 0 count) numAgents\<close> agents are
  Infected and all others Susceptible: that is \<open>min count numAgents\<close> for
  \<open>count \<ge> 0\<close>, every agent for \<open>count > numAgents\<close>, and no agent for a negative
  count. For \<open>count \<le> 0\<close> the call returns the reset network without a draw. The
  rejection loop of the seeding is not bounded: with draws in \<open>[0, 1)\<close>, the call
  returns exactly when the draws to come hold \<open>min count numAgents\<close> distinct ids.
\<close>

theorem seedInfected_seeds_clamped_count:
  "(\<forall>net' p'. seedInfected rnd net count p = Some (Inr (net', p')) \<longrightarrow>
        seededState net (max 0 count) net')
   \<and> (count \<le> 0 \<longrightarrow> seedInfected rnd net count p
          = Some (Inr (net\<lparr>agents := map (resetAgent (length (layers net))) (agents net)\<rparr>, p)))
   \<and> (unit_draws rnd \<longrightarrow>
        (\<exists>net' p'. seedInfected rnd net count p = Some (Inr (net', p')))
         = enoughSeeds rnd (length (agents net)) (min count (int (length (agents net)))) p)"
proof (intro conjI allI impI)
  fix net' p'
  assume "seedInfected rnd net count p = Some (Inr (net', p'))"
  then show "seededState net (max 0 count) net'" by (rule seedInfected_clamped)
next
  assume "count \<le> 0"
  then show "seedInfected rnd net count p
      = Some (Inr (net\<lparr>agents := map (resetAgent (length (layers net))) (agents net)\<rparr>, p))"
    by (rule seedInfected_nonpositive)
next
  assume u: "unit_draws rnd"
  show "(\<exists>net' p'. seedInfected rnd net count p = Some (Inr (net', p')))
         = enoughSeeds rnd (length (agents net)) (min count (int (length (agents net)))) p"
    using seedInfected_enough seedInfected_returns [OF u] by blast
qed

theorem seedInfected_seeds_clamped_count_witness:
  "unit_draws (\<lambda>p. real (p mod 3) / 3)
   \<and> map state (agents spentChain) = [R, I, I]
   \<and> map infectedByLayer (agents spentChain) = [None, Some 0, Some 1]
   \<and> map infectedCount (agents spentChain) = [[1], [0, 1, 4], []]
   \<and> length (layers spentChain) = 2
   \<and> enoughSeeds (\<lambda>p. real (p mod 3) / 3) 3 3 0
   \<and> (\<exists>net'. seedInfected (\<lambda>p. real (p mod 3) / 3) spentChain 5 0 = Some (Inr (net', 3))
         \<and> seededState spentChain 5 net'
         \<and> agents net' = map (\<lambda>i. (newAgent 2 i)\<lparr>state := I\<rparr>) [0, 1, 2])
   \<and> (\<exists>net'. seedInfected (\<lambda>p. real (p mod 3) / 3) spentChain 2 0 = Some (Inr (net', 2))
         \<and> seededState spentChain 2 net'
         \<and> agents net' = [(newAgent 2 0)\<lparr>state := I\<rparr>, (newAgent 2 1)\<lparr>state := I\<rparr>, newAgent 2 2])
   \<and> (\<exists>net'. seedInfected (\<lambda>p. real (p mod 3) / 3) spentChain (- 4) 0 = Some (Inr (net', 0))
         \<and> seededState spentChain 0 net'
         \<and> agents net' = map (newAgent 2) [0, 1, 2])"
proof -
  let ?r = "\<lambda>p :: nat. real (p mod 3) / 3"
  let ?as5 = "map (\<lambda>i. (newAgent 2 i)\<lparr>state := I\<rparr>) [0, 1, 2]"
  let ?as2 = "[(newAgent 2 0)\<lparr>state := I\<rparr>, (newAgent 2 1)\<lparr>state := I\<rparr>, newAgent 2 2]"
  let ?as0 = "map (newAgent 2) [0, 1, 2]"
  have u: "unit_draws ?r" by (simp add: unit_draws_def)
  have n: "length (agents spentChain) = 3" by (simp add: spentChain_def)
  have sh: "map state (agents spentChain) = [R, I, I]"
    "map infectedByLayer (agents spentChain) = [None, Some 0, Some 1]"
    "map infectedCount (agents spentChain) = [[1], [0, 1, 4], []]"
    "length (layers spentChain) = 2"
    by (simp_all add: spentChain_def)
  have s5: "seedInfected ?r spentChain 5 0 = Some (Inr (spentChain\<lparr>agents := ?as5\<rparr>, 3))"
    by code_simp
  have s2: "seedInfected ?r spentChain 2 0 = Some (Inr (spentChain\<lparr>agents := ?as2\<rparr>, 2))"
    by code_simp
  have r0: "map (resetAgent (length (layers spentChain))) (agents spentChain) = ?as0"
    by code_simp
  from seedInfected_seeds_clamped_count [of ?r spentChain 5 0] s5 u n
  have a5: "seededState spentChain 5 (spentChain\<lparr>agents := ?as5\<rparr>)"
    and e: "enoughSeeds ?r 3 3 0"
    by auto
  from seedInfected_seeds_clamped_count [of ?r spentChain 2 0] s2
  have a2: "seededState spentChain 2 (spentChain\<lparr>agents := ?as2\<rparr>)"
    by auto
  from seedInfected_seeds_clamped_count [of ?r spentChain "- 4" 0]
  have "seedInfected ?r spentChain (- 4) 0 = Some (Inr (spentChain\<lparr>agents :=
      map (resetAgent (length (layers spentChain))) (agents spentChain)\<rparr>, 0))"
    by simp
  then have s0: "seedInfected ?r spentChain (- 4) 0 = Some (Inr (spentChain\<lparr>agents := ?as0\<rparr>, 0))"
    by (simp only: r0)
  from seedInfected_seeds_clamped_count [of ?r spentChain "- 4" 0] s0
  have "seededState spentChain (max 0 (- 4)) (spentChain\<lparr>agents := ?as0\<rparr>)"
    by blast
  then have a0: "seededState spentChain 0 (spentChain\<lparr>agents := ?as0\<rparr>)"
    by simp
  have "\<exists>net'. seedInfected ?r spentChain 5 0 = Some (Inr (net', 3))
         \<and> seededState spentChain 5 net' \<and> agents net' = ?as5"
    using s5 a5 by (intro exI [of _ "spentChain\<lparr>agents := ?as5\<rparr>"]) simp
  moreover have "\<exists>net'. seedInfected ?r spentChain 2 0 = Some (Inr (net', 2))
         \<and> seededState spentChain 2 net' \<and> agents net' = ?as2"
    using s2 a2 by (intro exI [of _ "spentChain\<lparr>agents := ?as2\<rparr>"]) simp
  moreover have "\<exists>net'. seedInfected ?r spentChain (- 4) 0 = Some (Inr (net', 0))
         \<and> seededState spentChain 0 net' \<and> agents net' = ?as0"
    using s0 a0 by (intro exI [of _ "spentChain\<lparr>agents := ?as0\<rparr>"]) simp
  ultimately show ?thesis using u sh e by simp
qed

subsection \<open>The passes of the layers, one after the other\<close>































section \<open>A layer fires every \<open>frequency\<close> steps\<close>



section \<open>Each layer spreads from its own snapshot\<close>



subsection \<open>Counters and infecting layers stay consistent\<close>

lemma sum_list_map_update:
  fixes f :: "'a \<Rightarrow> nat"
  assumes "i < length xs"
  shows "sum_list (map f (xs[i := x])) + f (xs ! i) = sum_list (map f xs) + f x"
  using assms
proof (induction xs arbitrary: i)
  case Nil
  then show ?case by simp
next
  case (Cons y ys)
  then show ?case by (cases i) auto
qed

lemma numAttributed_sum:
  "numAttributed as = sum_list (map (\<lambda>a. if infectedByLayer a \<noteq> None then 1 else 0) as)"
  unfolding numAttributed_def by (induction as) auto

lemma sum_list_bump: "sum_list (bump l cnt) = Suc (sum_list cnt)"
proof (cases "l < length cnt")
  case True
  then show ?thesis
    using sum_list_map_update [of l cnt "\<lambda>x. x" "cnt ! l + 1"]
    by (simp add: bump_def)
next
  case False
  then show ?thesis by (simp add: bump_def)
qed

lemma attributionOK_infect:
  assumes ok: "attributionOK as" and r: "nid < length as" "idx < length as"
    and s: "state (as ! nid) = S"
  shows "attributionOK (infect lid idx nid as)"
proof -
  let ?f = "\<lambda>a. sum_list (infectedCount a)"
  let ?g = "\<lambda>a :: SimAgent. if infectedByLayer a \<noteq> None then 1 else 0 :: nat"
  let ?nb = "(as ! nid)\<lparr>state := I, infectedByLayer :=
      (case infectedByLayer (as ! nid) of None \<Rightarrow> Some lid | Some l \<Rightarrow> Some l)\<rparr>"
  let ?as1 = "as[nid := ?nb]"
  let ?ag = "(?as1 ! idx)\<lparr>infectedCount := bump lid (infectedCount (?as1 ! idx))\<rparr>"
  have inf: "infect lid idx nid as = ?as1[idx := ?ag]"
    by (simp add: infect_def Let_def)
  from ok r(1) s have none: "infectedByLayer (as ! nid) = None"
    by (auto simp: attributionOK_def list_all_length)
  have f1: "sum_list (map ?f ?as1) = sum_list (map ?f as)"
    using sum_list_map_update [of nid as ?f ?nb] r(1) by simp
  have g1: "sum_list (map ?g ?as1) = Suc (sum_list (map ?g as))"
    using sum_list_map_update [of nid as ?g ?nb] r(1) none by simp
  have f2: "sum_list (map ?f (?as1[idx := ?ag])) = Suc (sum_list (map ?f ?as1))"
    using sum_list_map_update [of idx ?as1 ?f ?ag] r(2) by (simp add: sum_list_bump)
  have g2: "sum_list (map ?g (?as1[idx := ?ag])) = sum_list (map ?g ?as1)"
    using sum_list_map_update [of idx ?as1 ?g ?ag] r(2) by simp
  have tot: "totalSpread (infect lid idx nid as) = numAttributed (infect lid idx nid as)"
    using ok f1 g1 f2 g2 unfolding inf attributionOK_def totalSpread_def numAttributed_sum
    by simp
  have "state (infect lid idx nid as ! i) \<noteq> S \<or> infectedByLayer (infect lid idx nid as ! i) = None"
    if "i < length as" for i
    using that ok r by (auto simp: state_infect infectedByLayer_infect attributionOK_def list_all_length)
  then show ?thesis
    using tot by (simp add: attributionOK_def list_all_length)
qed

lemma attributionOK_recover:
  assumes ok: "attributionOK as" and i: "i < length as"
  shows "attributionOK (as[i := (as ! i)\<lparr>state := R\<rparr>])"
proof -
  let ?f = "\<lambda>a. sum_list (infectedCount a)"
  let ?g = "\<lambda>a :: SimAgent. if infectedByLayer a \<noteq> None then 1 else 0 :: nat"
  let ?a = "(as ! i)\<lparr>state := R\<rparr>"
  have "sum_list (map ?f (as[i := ?a])) = sum_list (map ?f as)"
    using sum_list_map_update [of i as ?f ?a] i by simp
  moreover have "sum_list (map ?g (as[i := ?a])) = sum_list (map ?g as)"
    using sum_list_map_update [of i as ?g ?a] i by simp
  ultimately have "totalSpread (as[i := ?a]) = numAttributed (as[i := ?a])"
    using ok unfolding attributionOK_def totalSpread_def numAttributed_sum by simp
  moreover have "list_all (\<lambda>a. state a \<noteq> S \<or> infectedByLayer a = None) (as[i := ?a])"
    using ok i by (auto simp: attributionOK_def list_all_length nth_list_update)
  ultimately show ?thesis by (simp add: attributionOK_def)
qed

lemma simulateStep_attributionOK:
  assumes "simulateStep rnd net sr rr iter p = Inr (net', act, p')"
    and "attributionOK (agents net)"
  shows "attributionOK (agents net')"
proof -
  from simulateStep_phases [OF assms(1)] obtain mid p1
    where sp: "spreadPhase rnd net sr iter p = Inr (mid, act, p1)"
      and re: "recovery rnd rr mid p1 = (agents net', p')" by blast
  have "attributionOK (fst (mid, act, p1)) \<and> length mid = length (agents net)"
    using sp
  proof (rule spreadPhase_induct [where Q = "\<lambda>st :: stepState. attributionOK (fst st)"])
    show "attributionOK (fst (agents net, [], p))" using assms(2) by simp
  next
    fix l idx nid w as and act :: "nat list" and q :: nat
    assume "attributionOK (fst (as, act, q))" "idx < length as" "nid < length as"
      "state (as ! nid) = S"
    then show "attributionOK (fst (infect (layer_id l) idx nid as, setAdd (layer_id l) act, q + 1))"
      by (simp add: attributionOK_infect)
  qed simp
  then have mid: "attributionOK mid" by simp
  have "attributionOK (fst (agents net', p')) \<and> length (agents net') = length mid"
    using re
  proof (rule recovery_induct [where Q = "\<lambda>st :: SimAgent list \<times> nat. attributionOK (fst st)"])
    show "attributionOK (fst (mid, p1))" using mid by simp
  next
    fix i as and q :: nat
    assume "attributionOK (fst (as, q))" "i < length as"
    then show "attributionOK (fst (as[i := (as ! i)\<lparr>state := R\<rparr>], q + 1))"
      by (simp add: attributionOK_recover)
  qed simp
  then show ?thesis by simp
qed

lemma seedInfected_attributionOK:
  assumes "seedInfected rnd net count p = Some (Inr (net', p'))"
  shows "attributionOK (agents net')"
proof -
  from seedInfected_result [OF assms] obtain chosen where
    len: "length (agents net') = length (agents net)"
    and nth: "\<forall>i < length (agents net). agents net' ! i =
            (resetAgent (length (layers net)) (agents net ! i))
              \<lparr>state := if int i \<in> set chosen then I else S\<rparr>"
    by blast
  have all: "\<forall>a \<in> set (agents net'). infectedByLayer a = None \<and> sum_list (infectedCount a) = 0"
    using nth len by (auto simp: in_set_conv_nth resetAgent_def)
  then have "totalSpread (agents net') = 0"
    by (simp add: totalSpread_def sum_list_eq_0_iff)
  moreover have "numAttributed (agents net') = 0"
    using all by (simp add: numAttributed_def)
  ultimately show ?thesis
    using all by (simp add: attributionOK_def list_all_iff)
qed

lemma run_attributionOK:
  "attributionOK (agents net) \<Longrightarrow> run rnd ops (net, acts, p) = Some (Inr (net', acts', p')) \<Longrightarrow>
   attributionOK (agents net')"
proof (induction ops arbitrary: net acts p)
  case Nil
  then show ?case by simp
next
  case (Cons op ops)
  show ?case
  proof (cases op)
    case (Seed count)
    with Cons.prems(2) obtain net1 p1
      where se: "seedInfected rnd net count p = Some (Inr (net1, p1))"
        and rest: "run rnd ops (net1, acts, p1) = Some (Inr (net', acts', p'))"
      by (auto simp: bindE_def split: option.splits sum.splits)
    from Cons.IH [OF seedInfected_attributionOK [OF se] rest] show ?thesis .
  next
    case (Step sr rr iter)
    with Cons.prems(2) obtain net1 act1 p1
      where st: "simulateStep rnd net sr rr iter p = Inr (net1, act1, p1)"
        and rest: "run rnd ops (net1, acts @ [act1], p1) = Some (Inr (net', acts', p'))"
      by (auto simp: bindE_def split: sum.splits)
    from Cons.IH [OF simulateStep_attributionOK [OF st Cons.prems(1)] rest] show ?thesis .
  qed
qed

section \<open>Counters add up to the attributed infections\<close>

text \<open>
  C10. Whenever \<^verbatim>\<open>seedInfected\<close> returns, every Susceptible agent has
  \<^verbatim>\<open>infectedByLayer\<close> \<^verbatim>\<open>null\<close> and the \<^verbatim>\<open>infectedCount\<close> entries of all agents add up
  to the number of agents whose \<^verbatim>\<open>infectedByLayer\<close> is set; every \<^verbatim>\<open>simulateStep\<close>
  that returns keeps both; so they hold after a seeding followed by any sequence of
  steps and seedings. On a well-formed network a step does return.
\<close>

theorem attribution_invariant:
  "(\<forall>net' p'. seedInfected rnd net count p = Some (Inr (net', p')) \<longrightarrow>
       attributionOK (agents net'))
   \<and> (\<forall>net' act p'. attributionOK (agents net)
         \<and> simulateStep rnd net sr rr iter p = Inr (net', act, p') \<longrightarrow>
       attributionOK (agents net'))
   \<and> (\<forall>net' acts' p'. run rnd (Seed count # ops) (net, acts, p) = Some (Inr (net', acts', p')) \<longrightarrow>
       attributionOK (agents net'))
   \<and> (wfNetwork net \<longrightarrow> (\<exists>net' act p'. simulateStep rnd net sr rr iter p = Inr (net', act, p')))"
proof (intro conjI allI impI)
  fix net' p'
  assume "seedInfected rnd net count p = Some (Inr (net', p'))"
  then show "attributionOK (agents net')" by (rule seedInfected_attributionOK)
next
  fix net' act p'
  assume "attributionOK (agents net) \<and> simulateStep rnd net sr rr iter p = Inr (net', act, p')"
  then show "attributionOK (agents net')" using simulateStep_attributionOK by blast
next
  fix net' acts' p'
  assume "run rnd (Seed count # ops) (net, acts, p) = Some (Inr (net', acts', p'))"
  then obtain net1 p1
    where se: "seedInfected rnd net count p = Some (Inr (net1, p1))"
      and rest: "run rnd ops (net1, acts, p1) = Some (Inr (net', acts', p'))"
    by (auto simp: bindE_def split: option.splits sum.splits)
  from run_attributionOK [OF seedInfected_attributionOK [OF se] rest]
  show "attributionOK (agents net')" .
next
  assume "wfNetwork net"
  then show "\<exists>net' act p'. simulateStep rnd net sr rr iter p = Inr (net', act, p')"
    by (rule simulateStep_total)
qed

theorem attribution_invariant_witness:
  "wfNetwork (seededChain 1 1)
   \<and> (\<exists>net1 net'.
         seedInfected (\<lambda>p. real (p mod 3) / 3) (seededChain 1 1) 1 0 = Some (Inr (net1, 1))
       \<and> attributionOK (agents net1)
       \<and> totalSpread (agents net1) = 0 \<and> numAttributed (agents net1) = 0
       \<and> simulateStep (\<lambda>p. real (p mod 3) / 3) net1 1 0 1 1 = Inr (net', [0, 1], 6)
       \<and> run (\<lambda>p. real (p mod 3) / 3) [Seed 1, Step 1 0 1] (seededChain 1 1, [], 0)
           = Some (Inr (net', [[0, 1]], 6))
       \<and> map state (agents net') = [I, I, I]
       \<and> attributionOK (agents net')
       \<and> totalSpread (agents net') = 2 \<and> numAttributed (agents net') = 2)"
proof -
  let ?r = "\<lambda>p :: nat. real (p mod 3) / 3"
  let ?as1 = "[\<lparr>agent_id = 0, state = I, infectedByLayer = None, infectedCount = [0, 0]\<rparr>,
               \<lparr>agent_id = 1, state = S, infectedByLayer = None, infectedCount = [0, 0]\<rparr>,
               \<lparr>agent_id = 2, state = S, infectedByLayer = None, infectedCount = [0, 0]\<rparr>]"
  let ?as2 = "[\<lparr>agent_id = 0, state = I, infectedByLayer = None, infectedCount = [1, 0]\<rparr>,
               \<lparr>agent_id = 1, state = I, infectedByLayer = Some 0, infectedCount = [0, 1]\<rparr>,
               \<lparr>agent_id = 2, state = I, infectedByLayer = Some 1, infectedCount = [0, 0]\<rparr>]"
  let ?net1 = "(seededChain 1 1)\<lparr>agents := ?as1\<rparr>"
  let ?net2 = "(seededChain 1 1)\<lparr>agents := ?as2\<rparr>"
  have wf: "wfNetwork (seededChain 1 1)" by code_simp
  have se: "seedInfected ?r (seededChain 1 1) 1 0 = Some (Inr (?net1, 1))" by code_simp
  have st: "simulateStep ?r ?net1 1 0 1 1 = Inr (?net2, [0, 1], 6)" by code_simp
  have ru: "run ?r [Seed 1, Step 1 0 1] (seededChain 1 1, [], 0) = Some (Inr (?net2, [[0, 1]], 6))"
    by code_simp
  have t1: "totalSpread (agents ?net1) = 0" "numAttributed (agents ?net1) = 0"
    by (simp_all add: totalSpread_def numAttributed_def)
  have t2: "totalSpread (agents ?net2) = 2" "numAttributed (agents ?net2) = 2"
    by (simp_all add: totalSpread_def numAttributed_def)
  from attribution_invariant [of ?r "seededChain 1 1" 1 0 1 0 1 "[Step 1 0 1]" "[]"] se ru
  have a1: "attributionOK (agents ?net1)" and a2: "attributionOK (agents ?net2)"
    by blast+
  have ms: "map state (agents ?net2) = [I, I, I]" by simp
  show ?thesis
    by (intro conjI exI [of _ ?net1] exI [of _ ?net2]) (fact wf se a1 t1 st ru ms a2 t2)+
qed

subsection \<open>Steps and seedings without layers\<close>

lemma buildNetwork_no_layers:
  "buildNetwork rnd n [] p = Inr (\<lparr>agents = map (newAgent 0) [0..<n], layers = []\<rparr>, p)"
  by (simp add: buildNetwork_def buildLayers_def bindE_def)

lemma simulateStep_no_layers:
  assumes "layers net = []"
  shows "simulateStep rnd net sr rr iter p =
     Inr (net\<lparr>agents := fst (recovery rnd rr (agents net) p)\<rparr>, [],
          snd (recovery rnd rr (agents net) p))"
  using assms
  by (simp add: simulateStep_def spreadPhase_def buildLayerAdj_def bindE_def split: prod.splits)

lemma recovery_all_S:
  assumes "list_all (\<lambda>a. state a = S) as"
  shows "recovery rnd rr as p = (as, p)"
  unfolding recovery_def
proof (rule fold_inv [where P = "\<lambda>st. st = (as, p)"])
  fix i st
  assume "i \<in> set [0..<length as]" "st = (as, p)"
  then show "recoverAgent rnd rr i st = (as, p)"
    using assms by (simp add: recoverAgent_def list_all_length)
qed simp

lemma recovery_neverSpread:
  assumes "recovery rnd rr as0 p0 = (as', p')" "neverSpread as0"
  shows "neverSpread as'"
proof -
  from recovery_attribution [OF assms(1)]
  have "map infectedByLayer as' = map infectedByLayer as0"
    "map infectedCount as' = map infectedCount as0" by simp_all
  then have "length as' = length as0"
    "\<forall>i < length as0. infectedByLayer (as' ! i) = infectedByLayer (as0 ! i)
        \<and> infectedCount (as' ! i) = infectedCount (as0 ! i)"
    by (metis length_map, metis length_map nth_map)
  then show ?thesis using assms(2) by (simp add: neverSpread_def list_all_length)
qed

lemma seedInfected_no_layers:
  assumes "seedInfected rnd net count p = Some (Inr (net', p'))" "layers net = []"
  shows "layers net' = [] \<and> neverSpread (agents net')"
proof -
  from seedInfected_result [OF assms(1)] obtain chosen where
    lay: "layers net' = layers net" and len: "length (agents net') = length (agents net)"
    and nth: "\<forall>i < length (agents net). agents net' ! i =
            (resetAgent (length (layers net)) (agents net ! i))
              \<lparr>state := if int i \<in> set chosen then I else S\<rparr>"
    by blast
  show ?thesis
    using lay len nth assms(2) by (simp add: neverSpread_def list_all_length resetAgent_def)
qed

lemma run_no_layers:
  "layers net = [] \<Longrightarrow> neverSpread (agents net) \<Longrightarrow> list_all (\<lambda>act. act = []) acts \<Longrightarrow>
   run rnd ops (net, acts, p) = Some (Inr (net', acts', p')) \<Longrightarrow>
   layers net' = [] \<and> neverSpread (agents net') \<and> list_all (\<lambda>act. act = []) acts'"
proof (induction ops arbitrary: net acts p)
  case Nil
  then show ?case by simp
next
  case (Cons op ops)
  show ?case
  proof (cases op)
    case (Seed count)
    with Cons.prems(4) obtain net1 p1
      where se: "seedInfected rnd net count p = Some (Inr (net1, p1))"
        and rest: "run rnd ops (net1, acts, p1) = Some (Inr (net', acts', p'))"
      by (auto simp: bindE_def split: option.splits sum.splits)
    from seedInfected_no_layers [OF se Cons.prems(1)] Cons.IH [OF _ _ Cons.prems(3) rest]
    show ?thesis by simp
  next
    case (Step sr rr iter)
    let ?rec = "recovery rnd rr (agents net) p"
    let ?net1 = "net\<lparr>agents := fst ?rec\<rparr>"
    from Cons.prems(4) Step simulateStep_no_layers [OF Cons.prems(1), of rnd sr rr iter p]
    have rest: "run rnd ops (?net1, acts @ [[]], snd ?rec) = Some (Inr (net', acts', p'))"
      by (simp add: bindE_def)
    have "neverSpread (agents ?net1)"
      using recovery_neverSpread [of rnd rr "agents net" p "fst ?rec" "snd ?rec"] Cons.prems(2)
      by simp
    moreover have "layers ?net1 = []" using Cons.prems(1) by simp
    moreover have "list_all (\<lambda>act. act = []) (acts @ [[]])" using Cons.prems(3) by simp
    ultimately show ?thesis using Cons.IH [OF _ _ _ rest] by blast
  qed
qed

lemma run_steps_unseeded:
  "layers net = [] \<Longrightarrow> list_all (\<lambda>a. state a = S) (agents net) \<Longrightarrow> list_all isStep ops \<Longrightarrow>
   run rnd ops (net, acts, p) = Some (Inr (net, acts @ replicate (length ops) [], p))"
proof (induction ops arbitrary: acts)
  case Nil
  then show ?case by simp
next
  case (Cons op ops)
  from Cons.prems(3) obtain sr rr iter where op: "op = Step sr rr iter"
    by (cases op) auto
  have "simulateStep rnd net sr rr iter p = Inr (net, [], p)"
    using simulateStep_no_layers [OF Cons.prems(1), of rnd sr rr iter p]
      recovery_all_S [OF Cons.prems(2), of rnd rr p] by simp
  then show ?case
    using Cons.IH [OF Cons.prems(1,2), of "acts @ [[]]"] Cons.prems(3) op
    by (simp add: bindE_def replicate_append_same)
qed

section \<open>A network built without layers\<close>

text \<open>
  C1, as stated, fails: on the network of one agent built with no layer, seeding one
  agent makes it Infected and a step with recovery rate 1 makes it Recovered.
\<close>

theorem empty_layers_state_changes_counterexample:
  "buildNetwork (constDraws 0) 1 [] 0 = Inr (\<lparr>agents = [newAgent 0 0], layers = []\<rparr>, 0)
   \<and> state (newAgent 0 0) = S
   \<and> seedInfected (constDraws 0) \<lparr>agents = [newAgent 0 0], layers = []\<rparr> 1 0
       = Some (Inr (\<lparr>agents = [(newAgent 0 0)\<lparr>state := I\<rparr>], layers = []\<rparr>, 1))
   \<and> run (constDraws 0) [Seed 1, Step 1 1 1] (\<lparr>agents = [newAgent 0 0], layers = []\<rparr>, [], 0)
       = Some (Inr (\<lparr>agents = [(newAgent 0 0)\<lparr>state := R\<rparr>], layers = []\<rparr>, [[]], 2))
   \<and> state ((newAgent 0 0)\<lparr>state := R\<rparr>) = R"
  by code_simp

text \<open>
  C1, amended. A network built with an empty layer list never spreads an infection:
  after any sequence of \<^verbatim>\<open>seedInfected\<close> and \<^verbatim>\<open>simulateStep\<close> calls that returns, it
  still has no layer, every agent has \<^verbatim>\<open>infectedByLayer\<close> \<^verbatim>\<open>null\<close> and an empty
  \<^verbatim>\<open>infectedCount\<close>, and the active set of every step was empty. Under
  \<^verbatim>\<open>simulateStep\<close> calls alone the network never changes and no draw is consumed.
  A step on a network without layers returns and moves no agent except from
  Infected to Recovered.
\<close>

theorem empty_layers_never_spread:
  assumes "buildNetwork rnd n [] p0 = Inr (net0, p)"
  shows "(\<forall>net' acts' p'. run rnd ops (net0, [], p) = Some (Inr (net', acts', p')) \<longrightarrow>
            layers net' = [] \<and> neverSpread (agents net') \<and> list_all (\<lambda>act. act = []) acts')
       \<and> (list_all isStep ops \<longrightarrow>
            run rnd ops (net0, [], p) = Some (Inr (net0, replicate (length ops) [], p)))
       \<and> (\<forall>net sr rr iter q. layers net = [] \<longrightarrow>
            (\<exists>as' q'. simulateStep rnd net sr rr iter q = Inr (net\<lparr>agents := as'\<rparr>, [], q')
               \<and> list_all2 recoverOnly (agents net) as'))"
proof -
  from assms buildNetwork_no_layers [of rnd n p0]
  have net0: "net0 = \<lparr>agents = map (newAgent 0) [0..<n], layers = []\<rparr>" by simp
  have lay: "layers net0 = []" by (simp add: net0)
  have ns: "neverSpread (agents net0)"
    by (simp add: net0 neverSpread_def list_all_length newAgent_def)
  have allS: "list_all (\<lambda>a. state a = S) (agents net0)"
    by (simp add: net0 list_all_length newAgent_def)
  have a: "layers net' = [] \<and> neverSpread (agents net') \<and> list_all (\<lambda>act. act = []) acts'"
    if "run rnd ops (net0, [], p) = Some (Inr (net', acts', p'))" for net' acts' p'
    using run_no_layers [OF lay ns _ that] by simp
  have b: "run rnd ops (net0, [], p) = Some (Inr (net0, replicate (length ops) [], p))"
    if "list_all isStep ops"
    using run_steps_unseeded [OF lay allS that, of rnd "[]" p] by simp
  have c: "\<exists>as' q'. simulateStep rnd net sr rr iter q = Inr (net\<lparr>agents := as'\<rparr>, [], q')
               \<and> list_all2 recoverOnly (agents net) as'"
    if "layers net = []" for net sr rr iter q
  proof (intro exI conjI)
    show "simulateStep rnd net sr rr iter q =
        Inr (net\<lparr>agents := fst (recovery rnd rr (agents net) q)\<rparr>, [],
             snd (recovery rnd rr (agents net) q))"
      by (rule simulateStep_no_layers [OF that])
    show "list_all2 recoverOnly (agents net) (fst (recovery rnd rr (agents net) q))"
      by (rule recovery_recoverOnly [of rnd rr _ q _ "snd (recovery rnd rr (agents net) q)"]) simp
  qed
  from a b c show ?thesis by blast
qed

theorem empty_layers_never_spread_witness:
  "buildNetwork (constDraws 0) 2 [] 0
       = Inr (\<lparr>agents = [newAgent 0 0, newAgent 0 1], layers = []\<rparr>, 0)
   \<and> run (constDraws 0) [Seed 1, Step 1 1 1] (\<lparr>agents = [newAgent 0 0, newAgent 0 1], layers = []\<rparr>, [], 0)
       = Some (Inr (\<lparr>agents = [(newAgent 0 0)\<lparr>state := R\<rparr>, newAgent 0 1], layers = []\<rparr>, [[]], 2))
   \<and> neverSpread [(newAgent 0 0)\<lparr>state := R\<rparr>, newAgent 0 1]
   \<and> list_all isStep [Step 1 1 1, Step 1 1 2]
   \<and> run (constDraws 0) [Step 1 1 1, Step 1 1 2] (\<lparr>agents = [newAgent 0 0, newAgent 0 1], layers = []\<rparr>, [], 0)
       = Some (Inr (\<lparr>agents = [newAgent 0 0, newAgent 0 1], layers = []\<rparr>, [[], []], 0))"
proof -
  let ?net0 = "\<lparr>agents = [newAgent 0 0, newAgent 0 1], layers = []\<rparr>"
  let ?net1 = "\<lparr>agents = [(newAgent 0 0)\<lparr>state := R\<rparr>, newAgent 0 1], layers = []\<rparr>"
  have b: "buildNetwork (constDraws 0) 2 [] 0 = Inr (?net0, 0)" by code_simp
  have r: "run (constDraws 0) [Seed 1, Step 1 1 1] (?net0, [], 0) = Some (Inr (?net1, [[]], 2))"
    by code_simp
  have s: "list_all isStep [Step 1 1 1, Step 1 1 2]" by simp
  from empty_layers_never_spread [OF b, of "[Seed 1, Step 1 1 1]"] r
  have n: "neverSpread [(newAgent 0 0)\<lparr>state := R\<rparr>, newAgent 0 1]" by simp
  from empty_layers_never_spread [OF b, of "[Step 1 1 1, Step 1 1 2]"] s
  have u: "run (constDraws 0) [Step 1 1 1, Step 1 1 2] (?net0, [], 0)
       = Some (Inr (?net0, [[], []], 0))"
    by (simp add: numeral_2_eq_2)
  show ?thesis
    by (intro conjI) (fact b r n s u)+
qed

subsection \<open>Results depend only on the draws consumed\<close>

lemma agree_split: "agree r r' a c \<Longrightarrow> a \<le> b \<Longrightarrow> b \<le> c \<Longrightarrow> agree r r' a b \<and> agree r r' b c"
  by (auto simp: agree_def)

lemma agree_mono: "agree r r' a b \<Longrightarrow> a \<le> a' \<Longrightarrow> b' \<le> b \<Longrightarrow> agree r r' a' b'"
  by (auto simp: agree_def)

lemma fold_local:
  assumes "\<And>x. x \<in> set xs \<Longrightarrow> localStep pos (\<lambda>r. f r x) rnd"
  shows "localStep pos (\<lambda>r. fold (f r) xs) rnd"
  using assms
proof (induction xs)
  case Nil
  then show ?case by (simp add: localStep_def)
next
  case (Cons x xs)
  have hd: "localStep pos (\<lambda>r. f r x) rnd" using Cons.prems by simp
  have tl: "localStep pos (\<lambda>r. fold (f r) xs) rnd" using Cons.IH Cons.prems by simp
  show ?case
    unfolding localStep_def
  proof (intro allI conjI impI)
    fix s
    let ?s1 = "f rnd x s"
    have le1: "pos s \<le> pos ?s1" using hd unfolding localStep_def by blast
    have le2: "pos ?s1 \<le> pos (fold (f rnd) xs ?s1)" using tl unfolding localStep_def by blast
    show "pos s \<le> pos (fold (f rnd) (x # xs) s)" using le1 le2 by simp
    fix rnd'
    assume "agree rnd rnd' (pos s) (pos (fold (f rnd) (x # xs) s))"
    then have a: "agree rnd rnd' (pos s) (pos ?s1)"
      "agree rnd rnd' (pos ?s1) (pos (fold (f rnd) xs ?s1))"
      using agree_split [OF _ le1 le2] by simp_all
    from a(1) hd have "f rnd' x s = ?s1" unfolding localStep_def by blast
    moreover from a(2) tl have "fold (f rnd') xs ?s1 = fold (f rnd) xs ?s1"
      unfolding localStep_def by blast
    ultimately show "fold (f rnd') (x # xs) s = fold (f rnd) (x # xs) s" by simp
  qed
qed

lemma foldE_local:
  assumes "\<And>x. x \<in> set xs \<Longrightarrow> localStepE pos (\<lambda>r. f r x) rnd"
  shows "localStepE pos (\<lambda>r. foldE (f r) xs) rnd"
  using assms
proof (induction xs)
  case Nil
  then show ?case by (simp add: localStepE_def)
next
  case (Cons x xs)
  have hd: "localStepE pos (\<lambda>r. f r x) rnd" using Cons.prems by simp
  have tl: "localStepE pos (\<lambda>r. foldE (f r) xs) rnd" using Cons.IH Cons.prems by simp
  show ?case
    unfolding localStepE_def
  proof (intro allI impI)
    fix s s'
    assume "foldE (f rnd) (x # xs) s = Inr s'"
    then obtain s1 where s1: "f rnd x s = Inr s1" and rest: "foldE (f rnd) xs s1 = Inr s'"
      by (auto simp: bindE_def split: sum.splits)
    have le1: "pos s \<le> pos s1" using hd s1 unfolding localStepE_def by blast
    have le2: "pos s1 \<le> pos s'" using tl rest unfolding localStepE_def by blast
    show "pos s \<le> pos s' \<and>
        (\<forall>rnd'. agree rnd rnd' (pos s) (pos s') \<longrightarrow> foldE (f rnd') (x # xs) s = Inr s')"
    proof (intro conjI allI impI)
      show "pos s \<le> pos s'" using le1 le2 by simp
      fix rnd'
      assume "agree rnd rnd' (pos s) (pos s')"
      then have a: "agree rnd rnd' (pos s) (pos s1)" "agree rnd rnd' (pos s1) (pos s')"
        using agree_split [OF _ le1 le2] by simp_all
      from a(1) hd s1 have "f rnd' x s = Inr s1" unfolding localStepE_def by blast
      moreover from a(2) tl rest have "foldE (f rnd') xs s1 = Inr s'"
        unfolding localStepE_def by blast
      ultimately show "foldE (f rnd') (x # xs) s = Inr s'" by (simp add: bindE_def)
    qed
  qed
qed

lemma randomPair_local: "localStep snd (\<lambda>r. randomPair r c i j) rnd"
  unfolding localStep_def
proof (intro allI conjI impI)
  fix s :: "SimEdge list \<times> nat"
  obtain es p where s: "s = (es, p)" by (cases s)
  show "snd s \<le> snd (randomPair rnd c i j s)" by (simp add: s randomPair_def)
  fix rnd'
  assume a: "agree rnd rnd' (snd s) (snd (randomPair rnd c i j s))"
  show "randomPair rnd' c i j s = randomPair rnd c i j s"
  proof (cases "rnd p < c")
    case True
    with a have "agree rnd rnd' p (p + 2)" by (simp add: s randomPair_def)
    then have e: "rnd' p = rnd p" and "rnd' (Suc p) = rnd (Suc p)" by (simp_all add: agree_def)
    then have w: "drawWeight rnd' (Suc p) = drawWeight rnd (Suc p)" by (simp add: drawWeight_def)
    show ?thesis using True by (simp add: s randomPair_def w e)
  next
    case False
    with a have "agree rnd rnd' p (p + 1)" by (simp add: s randomPair_def)
    then have "rnd' p = rnd p" by (simp add: agree_def)
    then show ?thesis using False by (simp add: s randomPair_def)
  qed
qed

lemma buildRandomLayer_local:
  "localStep snd (\<lambda>r. fold (\<lambda>i. fold (randomPair r c i) [i + 1..<n]) [0..<n]) rnd"
proof -
  have inner: "localStep snd (\<lambda>r. fold (randomPair r c i) [i + 1..<n]) rnd" for i
    using fold_local [of "[i + 1..<n]" snd "\<lambda>r. randomPair r c i" rnd] randomPair_local
    by simp
  show ?thesis
    using fold_local [of "[0..<n]" snd "\<lambda>r i. fold (randomPair r c i) [i + 1..<n]" rnd] inner
    by simp
qed

lemma adjPair_local: "localStep snd (\<lambda>r. adjPair r adj i j) rnd"
  unfolding localStep_def
proof (intro allI conjI impI)
  fix s :: "SimEdge list \<times> nat"
  obtain es p where s: "s = (es, p)" by (cases s)
  show "snd s \<le> snd (adjPair rnd adj i j s)" by (simp add: s adjPair_def)
  fix rnd'
  assume a: "agree rnd rnd' (snd s) (snd (adjPair rnd adj i j s))"
  show "adjPair rnd' adj i j s = adjPair rnd adj i j s"
  proof (cases "adj ! i ! j")
    case True
    with a have "agree rnd rnd' p (p + 1)" by (simp add: s adjPair_def)
    then have "rnd' p = rnd p" by (simp add: agree_def)
    then show ?thesis by (simp add: s adjPair_def drawWeight_def)
  next
    case False
    then show ?thesis by (simp add: s adjPair_def)
  qed
qed

lemma edgesOfAdj_local:
  "localStep snd (\<lambda>r. fold (\<lambda>i. fold (adjPair r adj i) [i + 1..<n]) [0..<n]) rnd"
proof -
  have inner: "localStep snd (\<lambda>r. fold (adjPair r adj i) [i + 1..<n]) rnd" for i
    using fold_local [of "[i + 1..<n]" snd "\<lambda>r. adjPair r adj i" rnd] adjPair_local
    by simp
  show ?thesis
    using fold_local [of "[0..<n]" snd "\<lambda>r i. fold (adjPair r adj i) [i + 1..<n]" rnd] inner
    by simp
qed

lemma localStep_le: "localStep pos f rnd \<Longrightarrow> pos s \<le> pos (f rnd s)"
  unfolding localStep_def by blast

lemma localStep_eq: "localStep pos f rnd \<Longrightarrow> agree rnd rnd' (pos s) (pos (f rnd s)) \<Longrightarrow> f rnd' s = f rnd s"
  unfolding localStep_def by blast

lemma localStepE_le: "localStepE pos f rnd \<Longrightarrow> f rnd s = Inr s' \<Longrightarrow> pos s \<le> pos s'"
  unfolding localStepE_def by blast

lemma localStepE_eq:
  "localStepE pos f rnd \<Longrightarrow> f rnd s = Inr s' \<Longrightarrow> agree rnd rnd' (pos s) (pos s') \<Longrightarrow> f rnd' s = Inr s'"
  unfolding localStepE_def by blast

lemma buildRandomLayer_draws:
  assumes "buildRandomLayer rnd n c p = (es, p')"
  shows "p \<le> p' \<and> (agree rnd rnd' p p' \<longrightarrow> buildRandomLayer rnd' n c p = (es, p'))"
  using assms
    localStep_le [OF buildRandomLayer_local [where c = c and n = n and rnd = rnd], where s = "([], p)"]
    localStep_eq [OF buildRandomLayer_local [where c = c and n = n and rnd = rnd],
      where s = "([], p)" and rnd' = rnd']
  by (simp add: buildRandomLayer_def)

lemma edgesOfAdj_draws:
  assumes "edgesOfAdj rnd n adj p = (es, p')"
  shows "p \<le> p' \<and> (agree rnd rnd' p p' \<longrightarrow> edgesOfAdj rnd' n adj p = (es, p'))"
  using assms
    localStep_le [OF edgesOfAdj_local [where adj = adj and n = n and rnd = rnd], where s = "([], p)"]
    localStep_eq [OF edgesOfAdj_local [where adj = adj and n = n and rnd = rnd],
      where s = "([], p)" and rnd' = rnd']
  by (simp add: edgesOfAdj_def)

lemma retryTarget_draws:
  "retryTarget rnd n adj i newJ a p = (j, p') \<Longrightarrow>
   p \<le> p' \<and> (agree rnd rnd' p p' \<longrightarrow> retryTarget rnd' n adj i newJ a p = (j, p'))"
proof (induction rnd n adj i newJ a p rule: retryTarget.induct)
  case (1 rnd n adj i newJ a p)
  show ?case
  proof (cases "(newJ = int i \<or> adjAt adj i newJ) \<and> a < n")
    case True
    then have eq: "retryTarget r n adj i newJ a p =
        retryTarget r n adj i (drawIndex r p n) (a + 1) (p + 1)" for r
      by (subst retryTarget.simps) simp
    from "1.prems" eq have "retryTarget rnd n adj i (drawIndex rnd p n) (a + 1) (p + 1) = (j, p')"
      by simp
    from "1.IH" [OF True this] have le: "p + 1 \<le> p'"
      and ih: "agree rnd rnd' (p + 1) p' \<longrightarrow>
          retryTarget rnd' n adj i (drawIndex rnd p n) (a + 1) (p + 1) = (j, p')"
      by simp_all
    show ?thesis
    proof (intro conjI impI)
      show "p \<le> p'" using le by simp
      assume a: "agree rnd rnd' p p'"
      then have "rnd' p = rnd p" using le by (simp add: agree_def)
      then have "drawIndex rnd' p n = drawIndex rnd p n" by (simp add: drawIndex_def)
      moreover have "agree rnd rnd' (p + 1) p'" using a by (rule agree_mono) simp_all
      ultimately show "retryTarget rnd' n adj i newJ a p = (j, p')"
        using ih eq [of rnd'] by simp
    qed
  next
    case False
    then have eq: "retryTarget r n adj i newJ a p = (newJ, p)" for r
      by (subst retryTarget.simps) auto
    with "1.prems" show ?thesis by simp
  qed
qed

lemma rewireStep_local: "localStepE snd (\<lambda>r. rewireStep r n i m) rnd"
  unfolding localStepE_def
proof (intro allI impI)
  fix s s' :: "bool list list \<times> nat"
  assume run: "rewireStep rnd n i m s = Inr s'"
  obtain adj p where s: "s = (adj, p)" by (cases s)
  define adj1 where "adj1 = set2 (set2 adj i ((i + m) mod n) False) ((i + m) mod n) i False"
  define retry where "retry = (\<lambda>r. retryTarget r n adj1 i (drawIndex r (p + 1) n) 0 (p + 2))"
  define fin where "fin = (\<lambda>res :: int \<times> nat.
      if fst res \<noteq> int i \<and> \<not> adjAt adj1 i (fst res) then
        (if 0 \<le> fst res \<and> nat (fst res) < n
         then Inr (set2 (set2 adj1 i (nat (fst res)) True) (nat (fst res)) i True, snd res)
         else Inl TypeError)
      else Inr (adj1, snd res))"
  have unf: "rewireStep r n i m (adj, p) = (if r p < 0.1 then fin (retry r) else Inr (adj, p + 1))"
    for r
    by (simp add: rewireStep_unfold Let_def adj1_def retry_def fin_def)
  show "snd s \<le> snd s' \<and> (\<forall>rnd'. agree rnd rnd' (snd s) (snd s') \<longrightarrow> rewireStep rnd' n i m s = Inr s')"
  proof (cases "rnd p < 0.1")
    case False
    with run have s': "s' = (adj, p + 1)" by (simp add: s unf)
    show ?thesis
    proof (intro conjI allI impI)
      show "snd s \<le> snd s'" by (simp add: s s')
      fix rnd' assume "agree rnd rnd' (snd s) (snd s')"
      then have "rnd' p = rnd p" by (simp add: s s' agree_def)
      then show "rewireStep rnd' n i m s = Inr s'" using False by (simp add: s s' unf)
    qed
  next
    case True
    with run have fin: "fin (retry rnd) = Inr s'" by (simp add: s unf)
    then have q: "snd s' = snd (retry rnd)"
      by (auto simp: fin_def split: if_splits)
    have rt: "retryTarget rnd n adj1 i (drawIndex rnd (p + 1) n) 0 (p + 2)
        = (fst (retry rnd), snd (retry rnd))"
      by (simp add: retry_def)
    from retryTarget_draws [OF rt] have le: "p + 2 \<le> snd (retry rnd)"
      and loc: "\<And>rnd'. agree rnd rnd' (p + 2) (snd (retry rnd)) \<Longrightarrow>
         retryTarget rnd' n adj1 i (drawIndex rnd (p + 1) n) 0 (p + 2) = retry rnd"
      by simp_all
    show ?thesis
    proof (intro conjI allI impI)
      show "snd s \<le> snd s'" using le q by (simp add: s)
      fix rnd' assume a: "agree rnd rnd' (snd s) (snd s')"
      then have e: "rnd' p = rnd p" "rnd' (p + 1) = rnd (p + 1)"
        using le q by (simp_all add: s agree_def)
      have a2: "agree rnd rnd' (p + 2) (snd (retry rnd))" using a q by (auto simp: s agree_def)
      have "drawIndex rnd' (p + 1) n = drawIndex rnd (p + 1) n"
        using e(2) by (simp add: drawIndex_def)
      then have "retry rnd' = retry rnd"
        using loc [OF a2] unfolding retry_def by simp
      then show "rewireStep rnd' n i m s = Inr s'"
        using fin e(1) True by (simp add: s unf)
    qed
  qed
qed

lemma rewire_local: "localStepE snd (\<lambda>r. rewire r n k) rnd"
proof -
  have inner: "localStepE snd (\<lambda>r. foldE (rewireStep r n i) (ringOffsets k)) rnd" for i
    using foldE_local [of "ringOffsets k" snd "\<lambda>r. rewireStep r n i" rnd] rewireStep_local
    by simp
  show ?thesis
    unfolding rewire_def
    using foldE_local [of "[0..<n]" snd "\<lambda>r i. foldE (rewireStep r n i) (ringOffsets k)" rnd] inner
    by simp
qed

lemma buildSmallWorldLayer_draws:
  assumes "buildSmallWorldLayer rnd n c p = Inr (es, p')"
  shows "p \<le> p' \<and> (agree rnd rnd' p p' \<longrightarrow> buildSmallWorldLayer rnd' n c p = Inr (es, p'))"
proof -
  let ?k = "ringK n c"
  from smallworld_result [OF assms] obtain adj p1
    where rw: "rewire rnd n ?k (ringLattice n ?k, p) = Inr (adj, p1)"
      and ed: "edgesOfAdj rnd n adj p1 = (es, p')" by blast
  from localStepE_le [OF rewire_local rw] have le1: "p \<le> p1" by simp
  from edgesOfAdj_draws [OF ed] have le2: "p1 \<le> p'" by simp
  show ?thesis
  proof (intro conjI impI)
    show "p \<le> p'" using le1 le2 by simp
    assume "agree rnd rnd' p p'"
    then have a: "agree rnd rnd' p p1" "agree rnd rnd' p1 p'"
      using agree_split [OF _ le1 le2] by simp_all
    from localStepE_eq [OF rewire_local rw, of rnd'] a(1)
    have "rewire rnd' n ?k (ringLattice n ?k, p) = Inr (adj, p1)" by simp
    moreover from edgesOfAdj_draws [OF ed, of rnd'] a(2)
    have "edgesOfAdj rnd' n adj p1 = (es, p')" by simp
    ultimately show "buildSmallWorldLayer rnd' n c p = Inr (es, p')"
      by (simp add: buildSmallWorldLayer_def Let_def bindE_def)
  qed
qed

lemma attachLoop_draws:
  "attachLoop rnd m i added attempts totalDeg g p = (g', p') \<Longrightarrow>
   p \<le> p' \<and> (agree rnd rnd' p p' \<longrightarrow> attachLoop rnd' m i added attempts totalDeg g p = (g', p'))"
proof (induction rnd m i added attempts totalDeg g p rule: attachLoop.induct)
  case (1 rnd m i added attempts totalDeg g p)
  show ?case
  proof (cases "added < m \<and> attempts < i * 3")
    case False
    then have "attachLoop r m i added attempts totalDeg g p = (g, p)" for r
      by (subst attachLoop.simps) auto
    with "1.prems" show ?thesis by simp
  next
    case True
    let ?pick = "\<lambda>r. pickTarget (r p * real totalDeg) (fst g) (snd g) i [0..<i] 0"
    show ?thesis
    proof (cases "?pick rnd")
      case None
      have eq: "attachLoop r m i added attempts totalDeg g p =
          attachLoop r m i added (attempts + 1) totalDeg g (p + 1)" if "?pick r = None" for r
        using True that by (subst attachLoop.simps) simp
      from "1.prems" eq [of rnd] None
      have "attachLoop rnd m i added (attempts + 1) totalDeg g (p + 1) = (g', p')" by simp
      from "1.IH"(1) [OF True None this] have le: "p + 1 \<le> p'"
        and ih: "agree rnd rnd' (p + 1) p' \<longrightarrow>
          attachLoop rnd' m i added (attempts + 1) totalDeg g (p + 1) = (g', p')"
        by simp_all
      show ?thesis
      proof (intro conjI impI)
        show "p \<le> p'" using le by simp
        assume a: "agree rnd rnd' p p'"
        then have "rnd' p = rnd p" using le by (simp add: agree_def)
        then have "?pick rnd' = None" using None by simp
        moreover have "agree rnd rnd' (p + 1) p'" using a by (rule agree_mono) simp_all
        ultimately show "attachLoop rnd' m i added attempts totalDeg g p = (g', p')"
          using ih eq [of rnd'] by simp
      qed
    next
      case (Some j)
      have eq: "attachLoop r m i added attempts totalDeg g p =
          attachLoop r m i (added + 1) (attempts + 1) (totalDeg + 2) (connect i j g) (p + 1)"
        if "?pick r = Some j" for r
        using True that by (subst attachLoop.simps) simp
      from "1.prems" eq [of rnd] Some
      have "attachLoop rnd m i (added + 1) (attempts + 1) (totalDeg + 2) (connect i j g) (p + 1)
          = (g', p')" by simp
      from "1.IH"(2) [OF True Some this] have le: "p + 1 \<le> p'"
        and ih: "agree rnd rnd' (p + 1) p' \<longrightarrow>
          attachLoop rnd' m i (added + 1) (attempts + 1) (totalDeg + 2) (connect i j g) (p + 1)
            = (g', p')"
        by simp_all
      show ?thesis
      proof (intro conjI impI)
        show "p \<le> p'" using le by simp
        assume a: "agree rnd rnd' p p'"
        then have "rnd' p = rnd p" using le by (simp add: agree_def)
        then have "?pick rnd' = Some j" using Some by simp
        moreover have "agree rnd rnd' (p + 1) p'" using a by (rule agree_mono) simp_all
        ultimately show "attachLoop rnd' m i added attempts totalDeg g p = (g', p')"
          using ih eq [of rnd'] by simp
      qed
    qed
  qed
qed

lemma attachNode_local: "localStep snd (\<lambda>r. attachNode r m i) rnd"
  unfolding localStep_def
proof (intro allI conjI impI)
  fix s :: "(bool list list \<times> nat list) \<times> nat"
  obtain g p where s: "s = (g, p)" by (cases s)
  obtain g' p' where r: "attachLoop rnd m i 0 0 (totalDegree (snd g) i) g p = (g', p')"
    by (cases "attachLoop rnd m i 0 0 (totalDegree (snd g) i) g p")
  from attachLoop_draws [OF r] show "snd s \<le> snd (attachNode rnd m i s)"
    by (simp add: s attachNode_def r)
  fix rnd'
  assume "agree rnd rnd' (snd s) (snd (attachNode rnd m i s))"
  then have "agree rnd rnd' p p'" by (simp add: s attachNode_def r)
  with attachLoop_draws [OF r, of rnd'] show "attachNode rnd' m i s = attachNode rnd m i s"
    by (simp add: s attachNode_def r)
qed

lemma buildScaleFreeLayer_draws:
  assumes "buildScaleFreeLayer rnd n c p = (es, p')"
  shows "p \<le> p' \<and> (agree rnd rnd' p p' \<longrightarrow> buildScaleFreeLayer rnd' n c p = (es, p'))"
proof -
  let ?m = "attachM c"
  let ?init = "min (?m + 1) n"
  let ?g0 = "clique ?init (emptyAdj n, replicate n 0)"
  let ?att = "\<lambda>r. fold (attachNode r ?m) [?init..<n] (?g0, p)"
  have loc: "localStep snd (\<lambda>r. fold (attachNode r ?m) [?init..<n]) rnd"
    using fold_local [of "[?init..<n]" snd "\<lambda>r. attachNode r ?m" rnd] attachNode_local by simp
  have unf: "buildScaleFreeLayer r n c p = edgesOfAdj r n (fst (fst (?att r))) (snd (?att r))" for r
    by (simp add: buildScaleFreeLayer_def Let_def split: prod.splits)
  from assms have ed: "edgesOfAdj rnd n (fst (fst (?att rnd))) (snd (?att rnd)) = (es, p')"
    by (simp add: unf)
  from localStep_le [OF loc, of "(?g0, p)"] have le1: "p \<le> snd (?att rnd)" by simp
  from edgesOfAdj_draws [OF ed] have le2: "snd (?att rnd) \<le> p'" by simp
  show ?thesis
  proof (intro conjI impI)
    show "p \<le> p'" using le1 le2 by simp
    assume "agree rnd rnd' p p'"
    then have a: "agree rnd rnd' p (snd (?att rnd))" "agree rnd rnd' (snd (?att rnd)) p'"
      using agree_split [OF _ le1 le2] by simp_all
    from localStep_eq [OF loc, of rnd' "(?g0, p)"] a(1) have "?att rnd' = ?att rnd" by simp
    moreover from edgesOfAdj_draws [OF ed, of rnd'] a(2)
    have "edgesOfAdj rnd' n (fst (fst (?att rnd))) (snd (?att rnd)) = (es, p')" by simp
    ultimately show "buildScaleFreeLayer rnd' n c p = (es, p')"
      by (simp add: unf)
  qed
qed

lemma buildLayer_draws:
  assumes "buildLayer rnd lid n cfg p = Inr (l, p')"
  shows "p \<le> p' \<and> (agree rnd rnd' p p' \<longrightarrow> buildLayer rnd' lid n cfg p = Inr (l, p'))"
proof (cases "cfg_topology cfg")
  case random
  with assms obtain es where b: "buildRandomLayer rnd n (cfg_connectivity cfg) p = (es, p')"
    and l: "l = \<lparr>layer_id = lid, edges = es, connectivity = cfg_connectivity cfg,
                   frequency = cfg_frequency cfg\<rparr>"
    by (cases "buildRandomLayer rnd n (cfg_connectivity cfg) p")
       (auto simp: buildLayer_def bindE_def)
  from buildRandomLayer_draws [OF b, of rnd'] show ?thesis
    using random l by (auto simp: buildLayer_def bindE_def)
next
  case smallworld
  with assms obtain es where b: "buildSmallWorldLayer rnd n (cfg_connectivity cfg) p = Inr (es, p')"
    and l: "l = \<lparr>layer_id = lid, edges = es, connectivity = cfg_connectivity cfg,
                   frequency = cfg_frequency cfg\<rparr>"
    by (auto simp: buildLayer_def bindE_def split: sum.splits)
  from buildSmallWorldLayer_draws [OF b, of rnd'] show ?thesis
    using smallworld l by (auto simp: buildLayer_def bindE_def)
next
  case scalefree
  with assms obtain es where b: "buildScaleFreeLayer rnd n (cfg_connectivity cfg) p = (es, p')"
    and l: "l = \<lparr>layer_id = lid, edges = es, connectivity = cfg_connectivity cfg,
                   frequency = cfg_frequency cfg\<rparr>"
    by (cases "buildScaleFreeLayer rnd n (cfg_connectivity cfg) p")
       (auto simp: buildLayer_def bindE_def)
  from buildScaleFreeLayer_draws [OF b, of rnd'] show ?thesis
    using scalefree l by (auto simp: buildLayer_def bindE_def)
qed

lemma buildNetwork_draws:
  assumes "buildNetwork rnd n cfgs p = Inr (net, p')"
  shows "p \<le> p' \<and> (agree rnd rnd' p p' \<longrightarrow> buildNetwork rnd' n cfgs p = Inr (net, p'))"
proof -
  let ?F = "\<lambda>r (x :: nat \<times> LayerConfig) (s :: SimLayer list \<times> nat).
      bindE (buildLayer r (fst x) n (snd x) (snd s)) (\<lambda>(l, p2). Inr (fst s @ [l], p2))"
  have F: "(\<lambda>(idx, cfg) (ls, p1).
              bindE (buildLayer r idx n cfg p1) (\<lambda>(l, p2). Inr (ls @ [l], p2))) = ?F r" for r
    by (auto simp: fun_eq_iff)
  have step: "localStepE snd (\<lambda>r. ?F r x) rnd" for x
    unfolding localStepE_def
  proof (intro allI impI)
    fix s s' :: "SimLayer list \<times> nat"
    assume "?F rnd x s = Inr s'"
    then obtain l where b: "buildLayer rnd (fst x) n (snd x) (snd s) = Inr (l, snd s')"
      and s': "s' = (fst s @ [l], snd s')"
      by (auto simp: bindE_def split: sum.splits)
    from buildLayer_draws [OF b]
    show "snd s \<le> snd s' \<and> (\<forall>rnd'. agree rnd rnd' (snd s) (snd s') \<longrightarrow> ?F rnd' x s = Inr s')"
      using s' by (auto simp: bindE_def)
  qed
  have loc: "localStepE snd (\<lambda>r. foldE (?F r) (enumerate 0 cfgs)) rnd"
    using foldE_local [of "enumerate 0 cfgs" snd ?F rnd] step by simp
  from assms obtain ls where bl: "foldE (?F rnd) (enumerate 0 cfgs) ([], p) = Inr (ls, p')"
    and net: "net = \<lparr>agents = map (newAgent (length cfgs)) [0..<n], layers = ls\<rparr>"
    unfolding buildNetwork_def buildLayers_def F
    by (auto simp: Let_def bindE_def split: sum.splits)
  from localStepE_le [OF loc bl] localStepE_eq [OF loc bl, of rnd'] show ?thesis
    unfolding buildNetwork_def buildLayers_def F
    using net by (auto simp: Let_def bindE_def)
qed

lemma chooseSeeds_draws:
  assumes "chooseSeeds rnd n k chosen p = Some r"
  shows "p \<le> snd r \<and> (\<forall>rnd'. agree rnd rnd' p (snd r) \<longrightarrow> chooseSeeds rnd' n k chosen p = Some r)"
proof (rule chooseSeeds.raw_induct [where P = "\<lambda>rnd n k chosen p r.
     p \<le> snd r \<and> (\<forall>rnd'. agree rnd rnd' p (snd r) \<longrightarrow> chooseSeeds rnd' n k chosen p = Some r)",
     OF _ assms])
  fix f :: "rng \<Rightarrow> nat \<Rightarrow> int \<Rightarrow> int list \<Rightarrow> nat \<Rightarrow> (int list \<times> nat) option"
  fix rnd n k chosen p r
  assume IH: "\<And>rnd n k chosen p r. f rnd n k chosen p = Some r \<Longrightarrow>
     p \<le> snd r \<and> (\<forall>rnd'. agree rnd rnd' p (snd r) \<longrightarrow> chooseSeeds rnd' n k chosen p = Some r)"
    and body: "(if int (length chosen) < k
        then f rnd n k (setAdd (drawIndex rnd p n) chosen) (p + 1)
        else Some (chosen, p)) = Some r"
  show "p \<le> snd r \<and> (\<forall>rnd'. agree rnd rnd' p (snd r) \<longrightarrow> chooseSeeds rnd' n k chosen p = Some r)"
  proof (cases "int (length chosen) < k")
    case False
    with body have "r = (chosen, p)" by simp
    then show ?thesis using False by (subst chooseSeeds.simps) simp
  next
    case True
    with body have call: "f rnd n k (setAdd (drawIndex rnd p n) chosen) (p + 1) = Some r" by simp
    from IH [OF call] have le: "p + 1 \<le> snd r"
      and ih: "\<And>rnd'. agree rnd rnd' (p + 1) (snd r) \<Longrightarrow>
        chooseSeeds rnd' n k (setAdd (drawIndex rnd p n) chosen) (p + 1) = Some r"
      by simp_all
    show ?thesis
    proof (intro conjI allI impI)
      show "p \<le> snd r" using le by simp
      fix rnd' assume a: "agree rnd rnd' p (snd r)"
      then have "rnd' p = rnd p" using le by (simp add: agree_def)
      then have d: "drawIndex rnd' p n = drawIndex rnd p n" by (simp add: drawIndex_def)
      have "agree rnd rnd' (p + 1) (snd r)" using a by (rule agree_mono) simp_all
      from ih [OF this] d True show "chooseSeeds rnd' n k chosen p = Some r"
        by (subst chooseSeeds.simps) simp
    qed
  qed
qed

lemma seedInfected_draws:
  assumes "seedInfected rnd net count p = Some (Inr (net', p'))"
  shows "p \<le> p' \<and> (agree rnd rnd' p p' \<longrightarrow> seedInfected rnd' net count p = Some (Inr (net', p')))"
proof -
  let ?n = "length (agents net)"
  from assms obtain chosen where
    ch: "chooseSeeds rnd ?n (min count (int ?n)) [] p = Some (chosen, p')"
    by (auto simp: seedInfected_def Let_def bindE_def split: option.splits sum.splits)
  from chooseSeeds_draws [OF ch] have "p \<le> p'"
    and "agree rnd rnd' p p' \<Longrightarrow> chooseSeeds rnd' ?n (min count (int ?n)) [] p = Some (chosen, p')"
    by simp_all
  then show ?thesis
    using assms ch by (simp add: seedInfected_def Let_def)
qed

lemma tryInfect_local: "localStepE posOf (\<lambda>r. tryInfect r sr lid idx nb) rnd"
  unfolding localStepE_def
proof (intro allI impI)
  fix s s' :: stepState
  assume run: "tryInfect rnd sr lid idx nb s = Inr s'"
  obtain as act p where s: "s = (as, act, p)" by (cases s)
  obtain as' act' p' where s': "s' = (as', act', p')" by (cases s')
  from run [unfolded s s'] show "posOf s \<le> posOf s' \<and>
      (\<forall>rnd'. agree rnd rnd' (posOf s) (posOf s') \<longrightarrow> tryInfect rnd' sr lid idx nb s = Inr s')"
  proof (cases rule: tryInfect_cases)
    case same
    show ?thesis
    proof (intro conjI allI impI)
      show "posOf s \<le> posOf s'" using same by (auto simp: posOf_def s s')
      fix rnd' assume a: "agree rnd rnd' (posOf s) (posOf s')"
      show "tryInfect rnd' sr lid idx nb s = Inr s'"
      proof (cases "p' = p")
        case True
        with run show ?thesis
          unfolding s s' by (cases nb) (auto simp: tryInfect_def split: if_splits)
      next
        case False
        with same have "p' = p + 1" by simp
        with a have "rnd' p = rnd p" by (simp add: agree_def posOf_def s s')
        with run show ?thesis
          unfolding s s' by (cases nb) (auto simp: tryInfect_def split: if_splits)
      qed
    qed
  next
    case infected
    show ?thesis
    proof (intro conjI allI impI)
      show "posOf s \<le> posOf s'" using infected by (simp add: posOf_def s s')
      fix rnd' assume a: "agree rnd rnd' (posOf s) (posOf s')"
      with infected have "rnd' p = rnd p" by (simp add: agree_def posOf_def s s')
      with run show "tryInfect rnd' sr lid idx nb s = Inr s'"
        unfolding s s' by (cases nb) (auto simp: tryInfect_def split: if_splits)
    qed
  qed
qed

lemma spreadFrom_local: "localStepE posOf (\<lambda>r. spreadFrom r sr lid adj idx) rnd"
  unfolding localStepE_def
proof (intro allI impI)
  fix s s' :: stepState
  assume run: "spreadFrom rnd sr lid adj idx s = Inr s'"
  obtain as act p where s: "s = (as, act, p)" by (cases s)
  from run obtain rows where adj: "adj = Some rows" and aid: "agent_id (as ! idx) < length rows"
    unfolding s spreadFrom_def by (auto simp: Let_def split: option.splits if_splits)
  let ?nbs = "rows ! agent_id (as ! idx)"
  have unf: "spreadFrom r sr lid adj idx s = foldE (tryInfect r sr lid idx) ?nbs s" for r
    using adj aid by (simp add: s spreadFrom_def Let_def)
  have loc: "localStepE posOf (\<lambda>r. foldE (tryInfect r sr lid idx) ?nbs) rnd"
    using foldE_local [of ?nbs posOf "\<lambda>r. tryInfect r sr lid idx" rnd] tryInfect_local by simp
  from run have fo: "foldE (tryInfect rnd sr lid idx) ?nbs s = Inr s'" by (simp add: unf)
  from localStepE_le [OF loc fo] localStepE_eq [OF loc fo]
  show "posOf s \<le> posOf s' \<and>
      (\<forall>rnd'. agree rnd rnd' (posOf s) (posOf s') \<longrightarrow> spreadFrom rnd' sr lid adj idx s = Inr s')"
    by (simp add: unf)
qed

lemma processLayer_local: "localStepE posOf (\<lambda>r. processLayer r sr iter la l) rnd"
  unfolding localStepE_def
proof (intro allI impI)
  fix s s' :: stepState
  assume run: "processLayer rnd sr iter la l s = Inr s'"
  obtain as act p where s: "s = (as, act, p)" by (cases s)
  let ?adj = "if layer_id l < length la then Some (la ! layer_id l) else None"
  show "posOf s \<le> posOf s' \<and>
      (\<forall>rnd'. agree rnd rnd' (posOf s) (posOf s') \<longrightarrow> processLayer rnd' sr iter la l s = Inr s')"
  proof (cases "fires iter l")
    case False
    with run show ?thesis by (simp add: processLayer_def)
  next
    case True
    have unf: "processLayer r sr iter la l s =
        foldE (spreadFrom r sr (layer_id l) ?adj) (currentlyInfected as) s" for r
      using True by (simp add: processLayer_def fireLayer_def s)
    have loc: "localStepE posOf
        (\<lambda>r. foldE (spreadFrom r sr (layer_id l) ?adj) (currentlyInfected as)) rnd"
      using foldE_local [of "currentlyInfected as" posOf "\<lambda>r. spreadFrom r sr (layer_id l) ?adj" rnd]
        spreadFrom_local by simp
    from run have fo: "foldE (spreadFrom rnd sr (layer_id l) ?adj) (currentlyInfected as) s = Inr s'"
      by (simp add: unf)
    from localStepE_le [OF loc fo] localStepE_eq [OF loc fo] show ?thesis
      by (simp add: unf)
  qed
qed

lemma spreadPhase_draws:
  assumes "spreadPhase rnd net sr iter p = Inr (as', act', p')"
  shows "p \<le> p' \<and> (agree rnd rnd' p p' \<longrightarrow> spreadPhase rnd' net sr iter p = Inr (as', act', p'))"
proof -
  from assms obtain la where la: "buildLayerAdj (length (agents net)) (layers net) = Inr la"
    and fo: "foldE (processLayer rnd sr iter la) (layers net) (agents net, [], p) = Inr (as', act', p')"
    unfolding spreadPhase_def by (auto simp: bindE_def split: sum.splits)
  have loc: "localStepE posOf (\<lambda>r. foldE (processLayer r sr iter la) (layers net)) rnd"
    using foldE_local [of "layers net" posOf "\<lambda>r. processLayer r sr iter la" rnd]
      processLayer_local by simp
  from localStepE_le [OF loc fo] localStepE_eq [OF loc fo, of rnd'] show ?thesis
    using la by (simp add: spreadPhase_def bindE_def posOf_def)
qed

lemma recoverAgent_local: "localStep snd (\<lambda>r. recoverAgent r rr i) rnd"
  unfolding localStep_def
proof (intro allI conjI impI)
  fix s :: "SimAgent list \<times> nat"
  obtain as p where s: "s = (as, p)" by (cases s)
  show "snd s \<le> snd (recoverAgent rnd rr i s)" by (simp add: s recoverAgent_def)
  fix rnd'
  assume a: "agree rnd rnd' (snd s) (snd (recoverAgent rnd rr i s))"
  show "recoverAgent rnd' rr i s = recoverAgent rnd rr i s"
  proof (cases "state (as ! i) = I")
    case True
    with a have "rnd' p = rnd p" by (auto simp: s recoverAgent_def agree_def split: if_splits)
    then show ?thesis by (simp add: s recoverAgent_def)
  next
    case False
    then show ?thesis by (simp add: s recoverAgent_def)
  qed
qed

lemma recovery_draws:
  assumes "recovery rnd rr as p = (as', p')"
  shows "p \<le> p' \<and> (agree rnd rnd' p p' \<longrightarrow> recovery rnd' rr as p = (as', p'))"
proof -
  have loc: "localStep snd (\<lambda>r. fold (recoverAgent r rr) [0..<length as]) rnd"
    using fold_local [of "[0..<length as]" snd "\<lambda>r. recoverAgent r rr" rnd] recoverAgent_local
    by simp
  from localStep_le [OF loc, of "(as, p)"] localStep_eq [OF loc, of rnd' "(as, p)"] assms
  show ?thesis by (simp add: recovery_def)
qed

lemma simulateStep_draws:
  assumes "simulateStep rnd net sr rr iter p = Inr (net', act, p')"
  shows "p \<le> p' \<and> (agree rnd rnd' p p' \<longrightarrow> simulateStep rnd' net sr rr iter p = Inr (net', act, p'))"
proof -
  from simulateStep_phases [OF assms] obtain mid p1
    where sp: "spreadPhase rnd net sr iter p = Inr (mid, act, p1)"
      and re: "recovery rnd rr mid p1 = (agents net', p')"
      and net': "net' = net\<lparr>agents := agents net'\<rparr>" by blast
  from spreadPhase_draws [OF sp] have le1: "p \<le> p1" by simp
  from recovery_draws [OF re] have le2: "p1 \<le> p'" by simp
  show ?thesis
  proof (intro conjI impI)
    show "p \<le> p'" using le1 le2 by simp
    assume "agree rnd rnd' p p'"
    then have a: "agree rnd rnd' p p1" "agree rnd rnd' p1 p'"
      using agree_split [OF _ le1 le2] by simp_all
    from spreadPhase_draws [OF sp, of rnd'] a(1)
    have "spreadPhase rnd' net sr iter p = Inr (mid, act, p1)" by simp
    moreover from recovery_draws [OF re, of rnd'] a(2)
    have "recovery rnd' rr mid p1 = (agents net', p')" by simp
    ultimately show "simulateStep rnd' net sr rr iter p = Inr (net', act, p')"
      using net' by (simp add: simulateStep_def bindE_def)
  qed
qed

lemma run_draws:
  "run rnd ops (net, acts, p) = Some (Inr (net', acts', p')) \<Longrightarrow>
   p \<le> p' \<and> (agree rnd rnd' p p' \<longrightarrow> run rnd' ops (net, acts, p) = Some (Inr (net', acts', p')))"
proof (induction ops arbitrary: net acts p)
  case Nil
  then show ?case by simp
next
  case (Cons op ops)
  show ?case
  proof (cases op)
    case (Seed count)
    with Cons.prems obtain net1 p1
      where se: "seedInfected rnd net count p = Some (Inr (net1, p1))"
        and rest: "run rnd ops (net1, acts, p1) = Some (Inr (net', acts', p'))"
      by (auto simp: bindE_def split: option.splits sum.splits)
    from seedInfected_draws [OF se] have le1: "p \<le> p1" by simp
    from Cons.IH [OF rest] have le2: "p1 \<le> p'" by simp
    show ?thesis
    proof (intro conjI impI)
      show "p \<le> p'" using le1 le2 by simp
      assume "agree rnd rnd' p p'"
      then have a: "agree rnd rnd' p p1" "agree rnd rnd' p1 p'"
        using agree_split [OF _ le1 le2] by simp_all
      from seedInfected_draws [OF se, of rnd'] a(1)
      have "seedInfected rnd' net count p = Some (Inr (net1, p1))" by simp
      moreover from Cons.IH [OF rest] a(2)
      have "run rnd' ops (net1, acts, p1) = Some (Inr (net', acts', p'))" by simp
      ultimately show "run rnd' (op # ops) (net, acts, p) = Some (Inr (net', acts', p'))"
        using Seed by (simp add: bindE_def)
    qed
  next
    case (Step sr rr iter)
    with Cons.prems obtain net1 act1 p1
      where st: "simulateStep rnd net sr rr iter p = Inr (net1, act1, p1)"
        and rest: "run rnd ops (net1, acts @ [act1], p1) = Some (Inr (net', acts', p'))"
      by (auto simp: bindE_def split: sum.splits)
    from simulateStep_draws [OF st] have le1: "p \<le> p1" by simp
    from Cons.IH [OF rest] have le2: "p1 \<le> p'" by simp
    show ?thesis
    proof (intro conjI impI)
      show "p \<le> p'" using le1 le2 by simp
      assume "agree rnd rnd' p p'"
      then have a: "agree rnd rnd' p p1" "agree rnd rnd' p1 p'"
        using agree_split [OF _ le1 le2] by simp_all
      from simulateStep_draws [OF st, of rnd'] a(1)
      have "simulateStep rnd' net sr rr iter p = Inr (net1, act1, p1)" by simp
      moreover from Cons.IH [OF rest] a(2)
      have "run rnd' ops (net1, acts @ [act1], p1) = Some (Inr (net', acts', p'))" by simp
      ultimately show "run rnd' (op # ops) (net, acts, p) = Some (Inr (net', acts', p'))"
        using Step by (simp add: bindE_def)
    qed
  qed
qed

lemma engineRun_draws:
  assumes "engineRun rnd n cfgs ops p = Some (Inr (net', acts', p'))"
  shows "p \<le> p' \<and> (agree rnd rnd' p p' \<longrightarrow> engineRun rnd' n cfgs ops p = Some (Inr (net', acts', p')))"
proof -
  from assms obtain net1 p1 where b: "buildNetwork rnd n cfgs p = Inr (net1, p1)"
    and r: "run rnd ops (net1, [], p1) = Some (Inr (net', acts', p'))"
    by (auto simp: engineRun_def split: sum.splits)
  from buildNetwork_draws [OF b] have le1: "p \<le> p1" by simp
  from run_draws [OF r] have le2: "p1 \<le> p'" by simp
  show ?thesis
  proof (intro conjI impI)
    show "p \<le> p'" using le1 le2 by simp
    assume "agree rnd rnd' p p'"
    then have a: "agree rnd rnd' p p1" "agree rnd rnd' p1 p'"
      using agree_split [OF _ le1 le2] by simp_all
    from buildNetwork_draws [OF b, of rnd'] a(1)
    have "buildNetwork rnd' n cfgs p = Inr (net1, p1)" by simp
    moreover from run_draws [OF r, of rnd'] a(2)
    have "run rnd' ops (net1, [], p1) = Some (Inr (net', acts', p'))" by simp
    ultimately show "engineRun rnd' n cfgs ops p = Some (Inr (net', acts', p'))"
      by (simp add: engineRun_def)
  qed
qed

section \<open>The engine is a function of the draws it consumes\<close>

text \<open>
  C9. Two runs of the engine (\<^verbatim>\<open>buildNetwork\<close>, then the same \<^verbatim>\<open>seedInfected\<close> and
  \<^verbatim>\<open>simulateStep\<close> calls with the same parameters) on the same sequence of draws have
  the same outcome. More is true: when a run returns, it has consumed the draws from
  its start position up to its end position, and every run whose random source
  agrees with it on those draws returns the same network (agent states,
  \<^verbatim>\<open>infectedByLayer\<close>, \<^verbatim>\<open>infectedCount\<close>, layers and their edges), the same active-layer
  set for every step, and the same end position. With draws in \<open>[0, 1)\<close>, a run of
  \<^verbatim>\<open>buildNetwork\<close> and steps does return.
\<close>

theorem engine_deterministic_in_draws:
  "((\<forall>j. rnd j = rnd' j) \<longrightarrow>
      engineRun rnd n cfgs ops p = engineRun rnd' n cfgs ops p)
   \<and> (\<forall>net' acts' p'. engineRun rnd n cfgs ops p = Some (Inr (net', acts', p')) \<longrightarrow>
        p \<le> p' \<and> (agree rnd rnd' p p' \<longrightarrow>
          engineRun rnd' n cfgs ops p = Some (Inr (net', acts', p'))))
   \<and> (unit_draws rnd \<and> list_all isStep ops \<longrightarrow>
        (\<exists>net' acts' p'. engineRun rnd n cfgs ops p = Some (Inr (net', acts', p'))))"
proof (intro conjI allI impI)
  assume "\<forall>j. rnd j = rnd' j"
  then have "rnd = rnd'" by (simp add: fun_eq_iff)
  then show "engineRun rnd n cfgs ops p = engineRun rnd' n cfgs ops p" by simp
next
  fix net' acts' p'
  assume e: "engineRun rnd n cfgs ops p = Some (Inr (net', acts', p'))"
  from engineRun_draws [OF e] show "p \<le> p'" by simp
  assume "agree rnd rnd' p p'"
  with engineRun_draws [OF e] show "engineRun rnd' n cfgs ops p = Some (Inr (net', acts', p'))"
    by simp
next
  assume u: "unit_draws rnd \<and> list_all isStep ops"
  with buildNetwork_total [of rnd n cfgs p] obtain net1 p1
    where b: "buildNetwork rnd n cfgs p = Inr (net1, p1)" by blast
  from buildNetwork_wf [OF b] u run_steps_total [of net1 ops rnd "[]" p1]
  have "\<exists>net' acts' p'. run rnd ops (net1, [], p1) = Some (Inr (net', acts', p'))"
    by blast
  then show "\<exists>net' acts' p'. engineRun rnd n cfgs ops p = Some (Inr (net', acts', p'))"
    using b by (simp add: engineRun_def)
qed

theorem engine_deterministic_in_draws_witness:
  "agree cycleDraws (cycleThenZero 23) 0 23
   \<and> cycleDraws 23 = 3 / 4 \<and> cycleThenZero 23 23 = 0
   \<and> (\<exists>net' acts'.
        engineRun cycleDraws 3 twoConfigs [Seed 1, Step 1 0 1, Step 1 (1 / 2) 2] 0
          = Some (Inr (net', acts', 23))
        \<and> engineRun (cycleThenZero 23) 3 twoConfigs [Seed 1, Step 1 0 1, Step 1 (1 / 2) 2] 0
          = Some (Inr (net', acts', 23))
        \<and> map state (agents net') = [R, R, I] \<and> acts' = [[0, 1], []])"
proof -
  let ?ops = "[Seed 1, Step 1 0 1, Step 1 (1 / 2) 2]"
  have ag: "agree cycleDraws (cycleThenZero 23) 0 23"
    by (simp add: agree_def cycleDraws_def cycleThenZero_def)
  have v: "cycleDraws 23 = 3 / 4" "cycleThenZero 23 23 = 0"
    by (simp_all add: cycleDraws_def cycleThenZero_def)
  have ev: "map_option (map_sum id (\<lambda>(net', acts', p'). (map state (agents net'), acts', p')))
      (engineRun cycleDraws 3 twoConfigs ?ops 0) = Some (Inr ([R, R, I], [[0, 1], []], 23))"
    by code_simp
  then obtain net' acts' where
    e: "engineRun cycleDraws 3 twoConfigs ?ops 0 = Some (Inr (net', acts', 23))"
    and st: "map state (agents net') = [R, R, I]" "acts' = [[0, 1], []]"
    by (cases "engineRun cycleDraws 3 twoConfigs ?ops 0") (auto simp: map_sum_def split: sum.splits)
  from engine_deterministic_in_draws [of cycleDraws "cycleThenZero 23" 3 twoConfigs ?ops 0] e ag
  have e': "engineRun (cycleThenZero 23) 3 twoConfigs ?ops 0 = Some (Inr (net', acts', 23))"
    by blast
  show ?thesis
    by (intro conjI exI [of _ net'] exI [of _ acts']) (fact ag v e e' st)+
qed

end
